theory Spec2Isabelle
  imports Complex_Main "HOL-Library.Sublist"
begin

section \<open>Python text\<close>

text \<open>
  A Python \<open>str\<close> is modelled as a \<open>string\<close> whose characters are the code points
  U+0000 to U+00FF. \<open>str.strip\<close>, \<open>str.lower\<close>, \<open>str.upper\<close> and the regular
  expression class \<open>\d\<close> are written out for that range. Two characters of the range
  (U+00B5 and U+00FF) have an upper-case form beyond U+00FF; \<open>upper_char\<close> leaves them
  unchanged.
\<close>

definition code_point :: "char \<Rightarrow> nat" where
  "code_point c = of_char c"

definition is_digit :: "char \<Rightarrow> bool" where
  "is_digit c = (48 \<le> code_point c \<and> code_point c \<le> 57)"

definition is_space :: "char \<Rightarrow> bool" where
  "is_space c = (let n = code_point c in
     (9 \<le> n \<and> n \<le> 13) \<or> (28 \<le> n \<and> n \<le> 32) \<or> n = 133 \<or> n = 160)"

definition py_strip :: "string \<Rightarrow> string" where
  "py_strip s = rev (dropWhile is_space (rev (dropWhile is_space s)))"

text \<open>Text that has no white space at either end.\<close>

definition trimmed :: "string \<Rightarrow> bool" where
  "trimmed s = (s = [] \<or> (\<not> is_space (hd s) \<and> \<not> is_space (last s)))"

definition lower_char :: "char \<Rightarrow> char" where
  "lower_char c = (let n = code_point c in
     if (65 \<le> n \<and> n \<le> 90) \<or> (192 \<le> n \<and> n \<le> 222 \<and> n \<noteq> 215)
     then char_of (n + 32) else c)"

definition py_lower :: "string \<Rightarrow> string" where
  "py_lower s = map lower_char s"

definition upper_char :: "char \<Rightarrow> string" where
  "upper_char c = (let n = code_point c in
     if n = 223 then ''SS''
     else if (97 \<le> n \<and> n \<le> 122) \<or> (224 \<le> n \<and> n \<le> 254 \<and> n \<noteq> 247)
     then [char_of (n - 32)] else [c])"

definition py_upper :: "string \<Rightarrow> string" where
  "py_upper s = concat (map upper_char s)"

text \<open>\<open>s.replace(a, b)\<close> and \<open>s.replace(a, '')\<close> for a one-character \<open>a\<close>.\<close>

definition replace_char :: "char \<Rightarrow> char \<Rightarrow> string \<Rightarrow> string" where
  "replace_char a b s = map (\<lambda>c. if c = a then b else c) s"

definition remove_char :: "char \<Rightarrow> string \<Rightarrow> string" where
  "remove_char a s = filter (\<lambda>c. c \<noteq> a) s"

text \<open>\<open>str(n)\<close> for an integer: decimal digits, with a leading minus sign.\<close>

fun str_nat :: "nat \<Rightarrow> string" where
  "str_nat n = (if n < 10 then [char_of (48 + n)]
                else str_nat (n div 10) @ [char_of (48 + n mod 10)])"

declare str_nat.simps [simp del]

definition str_int :: "int \<Rightarrow> string" where
  "str_int i = (if i < 0 then CHR ''-'' # str_nat (nat (- i)) else str_nat (nat i))"

subsection \<open>The two regular expressions of the coercers\<close>

text \<open>
  \<open>re.match\<close> of \<open>-?\d+(?:\.\d+)?\<close> at the head of a string: the optional sign, the
  longest run of digits, then the fraction when a dot and at least one digit follow.
  \<open>re.search\<close> tries every start position from the left.
\<close>

definition match_unsigned :: "string \<Rightarrow> string option" where
  "match_unsigned s =
     (let ds = takeWhile is_digit s; r = dropWhile is_digit s in
      if ds = [] then None
      else (case r of
              c # t \<Rightarrow>
                if c = CHR ''.'' \<and> takeWhile is_digit t \<noteq> []
                then Some (ds @ CHR ''.'' # takeWhile is_digit t)
                else Some ds
            | [] \<Rightarrow> Some ds))"

definition match_num :: "string \<Rightarrow> string option" where
  "match_num s =
     (case s of
        c # t \<Rightarrow>
          if c = CHR ''-''
          then (case match_unsigned t of Some m \<Rightarrow> Some (c # m) | None \<Rightarrow> None)
          else match_unsigned s
      | [] \<Rightarrow> None)"

fun re_search_num :: "string \<Rightarrow> string option" where
  "re_search_num [] = None"
| "re_search_num (c # cs) =
     (case match_num (c # cs) of Some m \<Rightarrow> Some m | None \<Rightarrow> re_search_num cs)"

text \<open>\<open>re.fullmatch\<close> of \<open>\d+(?:[\.,]\d+)?\<close>.\<close>

definition fullmatch_plain_number :: "string \<Rightarrow> bool" where
  "fullmatch_plain_number s =
     (let ds = takeWhile is_digit s; r = dropWhile is_digit s in
      ds \<noteq> [] \<and>
      (case r of
         [] \<Rightarrow> True
       | c # t \<Rightarrow> (c = CHR ''.'' \<or> c = CHR '','') \<and> t \<noteq> [] \<and> list_all is_digit t))"

section \<open>Python values\<close>

text \<open>
  A float is NaN, an infinity or a finite value, the finite value being the rational
  that the double denotes. A cell of a data frame, a coerced value and a statement
  parameter are all values of \<open>pyval\<close>; an integer is a Python \<open>int\<close>, of any size.
\<close>

datatype pyfloat = NaN | PInf | NInf | Fin rat

datatype pyval = PNone | PBool bool | PInt int | PFloat pyfloat | PStr string

datatype error = KeyError | TypeError | ValueError | OverflowError | DBError | AlreadyClosed

text \<open>
  The builtins \<open>float\<close> on text (\<open>None\<close> stands for \<open>ValueError\<close>) and \<open>str\<close> on a
  finite float are parameters of the model. \<open>str\<close> on an integer is its decimal text; the
  bound that Python 3.11 puts on the digits of that conversion is not modelled.
\<close>

record builtins =
  float_of_text :: "string \<Rightarrow> pyfloat option"
  str_of_float :: "rat \<Rightarrow> string"

definition pd_isna :: "pyval \<Rightarrow> bool" where
  "pd_isna v = (v = PNone \<or> v = PFloat NaN)"

text \<open>\<open>isinstance(x, (int, float))\<close>; \<open>bool\<close> is a subclass of \<open>int\<close>.\<close>

definition is_number :: "pyval \<Rightarrow> bool" where
  "is_number v = (case v of PBool _ \<Rightarrow> True | PInt _ \<Rightarrow> True | PFloat _ \<Rightarrow> True | _ \<Rightarrow> False)"

definition py_str :: "builtins \<Rightarrow> pyval \<Rightarrow> string" where
  "py_str B v =
     (case v of
        PNone \<Rightarrow> ''None''
      | PBool b \<Rightarrow> (if b then ''True'' else ''False'')
      | PInt i \<Rightarrow> str_int i
      | PFloat NaN \<Rightarrow> ''nan''
      | PFloat PInf \<Rightarrow> ''inf''
      | PFloat NInf \<Rightarrow> ''-inf''
      | PFloat (Fin r) \<Rightarrow> str_of_float B r
      | PStr s \<Rightarrow> s)"

text \<open>
  \<open>float(n)\<close> for an integer: the nearest double, a tie going to the even mantissa of
  53 bits; when that is \<open>2 ** 1024\<close> or more, that is, when it has more than 1024 bits,
  Python raises \<open>OverflowError\<close>, here \<open>None\<close>. \<open>int_bit_length\<close> is \<open>int.bit_length\<close> on
  an integer that is not negative, and \<open>round_half_even a e\<close> is \<open>a\<close> rounded to a multiple
  of \<open>2 ** e\<close>.
\<close>

function int_bit_length :: "int \<Rightarrow> nat" where
  "int_bit_length n = (if n \<le> 0 then 0 else Suc (int_bit_length (n div 2)))"
  by pat_completeness auto

termination
  by (relation "measure nat") auto

declare int_bit_length.simps [simp del]

definition round_half_even :: "int \<Rightarrow> nat \<Rightarrow> int" where
  "round_half_even a e =
     (let q = a div 2 ^ e;
          r = a mod 2 ^ e
      in (if 2 ^ e < 2 * r \<or> (2 * r = 2 ^ e \<and> odd q) then q + 1 else q) * 2 ^ e)"

definition nearest_double :: "int \<Rightarrow> int" where
  "nearest_double a = round_half_even a (int_bit_length a - 53)"

definition float_of_int :: "int \<Rightarrow> pyfloat option" where
  "float_of_int i =
     (if 1024 < int_bit_length (nearest_double \<bar>i\<bar>) then None
      else Some (Fin (of_int (sgn i * nearest_double \<bar>i\<bar>))))"

text \<open>
  \<open>float(x)\<close>: \<open>TypeError\<close> for \<open>None\<close>, \<open>OverflowError\<close> for an integer beyond the
  doubles, \<open>ValueError\<close> for text that is no number.
\<close>

definition float_of_num :: "builtins \<Rightarrow> pyval \<Rightarrow> error + pyfloat" where
  "float_of_num B v =
     (case v of
        PNone \<Rightarrow> Inl TypeError
      | PBool b \<Rightarrow> Inr (Fin (if b then 1 else 0))
      | PInt i \<Rightarrow> (case float_of_int i of Some f \<Rightarrow> Inr f | None \<Rightarrow> Inl OverflowError)
      | PFloat f \<Rightarrow> Inr f
      | PStr s \<Rightarrow> (case float_of_text B s of Some f \<Rightarrow> Inr f | None \<Rightarrow> Inl ValueError))"

text \<open>\<open>x in (0, 1)\<close> for a number \<open>x\<close>: Python compares by value, so \<open>True\<close> and \<open>1.0\<close> are in.\<close>

definition in_zero_one :: "pyval \<Rightarrow> bool" where
  "in_zero_one v =
     (case v of
        PBool _ \<Rightarrow> True
      | PInt i \<Rightarrow> i = 0 \<or> i = 1
      | PFloat f \<Rightarrow> f = Fin 0 \<or> f = Fin 1
      | _ \<Rightarrow> False)"

text \<open>A value on which \<open>float(x)\<close> raises no \<open>OverflowError\<close>.\<close>

definition fits_double :: "pyval \<Rightarrow> bool" where
  "fits_double v = (case v of PInt i \<Rightarrow> float_of_int i \<noteq> None | _ \<Rightarrow> True)"

section \<open>Registry and conversion helpers\<close>

datatype semtype = TStr | TNum | TBool | TUnit

definition ALLOWED_MAP :: "(string \<times> string \<times> semtype) list" where
  "ALLOWED_MAP =
     [(''descripcion'', ''descripcion'', TStr),
      (''existencia'', ''existencia'', TNum),
      (''servicio'', ''servicio'', TBool),
      (''precio_compra'', ''preciocompra'', TNum),
      (''precio1'', ''precio1'', TNum),
      (''precio2'', ''precio2'', TNum),
      (''precio3'', ''precio3'', TNum),
      (''unidad_compra'', ''unidadCompra'', TUnit),
      (''unidad_venta'', ''unidadVenta'', TUnit),
      (''factor'', ''factor'', TNum),
      (''granel'', ''granel'', TBool),
      (''clave_alterna'', ''clavealterna'', TStr)]"

definition UNIT_NORMALIZATION :: "(string \<times> string) list" where
  "UNIT_NORMALIZATION =
     [(''PZ'', ''PIEZA''), (''PZA'', ''PIEZA''), (''PZAS'', ''PIEZA''), (''PIEZA'', ''PIEZA''),
      (''PIEZAS'', ''PIEZA''),
      (''KG'', ''KG''), (''KILO'', ''KG''), (''KILOGRAMO'', ''KG''), (''KILOS'', ''KG''),
      (''KGS'', ''KG''),
      (''L'', ''L''), (''LT'', ''L''), (''LTS'', ''L''), (''LITRO'', ''L''), (''LITROS'', ''L''),
      (''M'', ''M''), (''MT'', ''M''), (''MTS'', ''M''), (''METRO'', ''M''), (''METROS'', ''M''),
      (''CJ'', ''CAJA''), (''CAJA'', ''CAJA''), (''CAJ'', ''CAJA''),
      (''PAQ'', ''PAQUETE''), (''PAQUETE'', ''PAQUETE'')]"

definition to_py_mysql :: "pyval \<Rightarrow> pyval" where
  "to_py_mysql v =
     (case v of
        PNone \<Rightarrow> PNone
      | PBool b \<Rightarrow> PInt (if b then 1 else 0)
      | PInt i \<Rightarrow> PInt i
      | PFloat f \<Rightarrow> (if f = NaN \<or> f = PInf \<or> f = NInf then PNone else PFloat f)
      | PStr s \<Rightarrow> (let s = py_strip s in if s = [] then PNone else PStr s))"

text \<open>\<open>obj.where(pd.notnull(obj), None)\<close> on one cell.\<close>

definition where_notnull :: "pyval \<Rightarrow> pyval" where
  "where_notnull v = (if pd_isna v then PNone else v)"

section \<open>Value coercers\<close>

text \<open>
  Each coercer of \<open>_clean_autocorrect\<close> takes the cell and the current value of its
  \<open>nonlocal\<close> counter, and returns the coerced value with the new counter. The numeric
  and the boolean coercer call \<open>float(x)\<close> on a number outside any \<open>try\<close>, so an
  exception of that call leaves the coercer.
\<close>

definition parse_num :: "builtins \<Rightarrow> pyval \<Rightarrow> nat \<Rightarrow> error + pyval \<times> nat" where
  "parse_num B x num_coerced =
     (if pd_isna x then Inr (PNone, num_coerced)
      else if is_number x then
        (case float_of_num B x of
           Inl e \<Rightarrow> Inl e
         | Inr f \<Rightarrow> Inr (PFloat f, num_coerced))
      else
        let s = py_strip (py_str B x) in
        if s = [] then Inr (PNone, num_coerced)
        else
          let s = replace_char (CHR '','') (CHR ''.'') s in
          (case re_search_num s of
             Some m \<Rightarrow>
               let n = num_coerced + (if s \<noteq> m then 1 else 0) in
               (case float_of_text B m of
                  Some f \<Rightarrow> Inr (PFloat f, n)
                | None \<Rightarrow> Inr (PNone, n))
           | None \<Rightarrow> Inr (PNone, num_coerced)))"

definition TRUE_TOKENS :: "string list" where
  "TRUE_TOKENS = [''1'', ''true'', ''t'', ''si'', [CHR ''s'', CHR 0xED], ''y'', ''yes'']"

definition FALSE_TOKENS :: "string list" where
  "FALSE_TOKENS = [''0'', ''false'', ''f'', ''no'', ''n'']"

definition parse_bool :: "builtins \<Rightarrow> pyval \<Rightarrow> nat \<Rightarrow> error + pyval \<times> nat" where
  "parse_bool B x bool_coerced =
     (if pd_isna x then Inr (PNone, bool_coerced)
      else if is_number x then
        (let n = bool_coerced + (if \<not> in_zero_one x then 1 else 0) in
         case float_of_num B x of
           Inl e \<Rightarrow> Inl e
         | Inr f \<Rightarrow> Inr (PInt (if f \<noteq> Fin 0 then 1 else 0), n))
      else
        let s = py_lower (py_strip (py_str B x)) in
        if s \<in> set TRUE_TOKENS then
          Inr (PInt 1, if s \<notin> set [''1'', ''true''] then bool_coerced + 1 else bool_coerced)
        else if s \<in> set FALSE_TOKENS then
          Inr (PInt 0, if s \<notin> set [''0'', ''false''] then bool_coerced + 1 else bool_coerced)
        else
          (case float_of_text B (replace_char (CHR '','') (CHR ''.'') s) of
             Some v \<Rightarrow> Inr (PInt (if v \<noteq> Fin 0 then 1 else 0), bool_coerced + 1)
           | None \<Rightarrow> Inr (PNone, bool_coerced)))"

definition normalize_unit_name :: "builtins \<Rightarrow> pyval \<Rightarrow> nat \<Rightarrow> pyval \<times> nat" where
  "normalize_unit_name B x unit_normalized =
     (if pd_isna x then (PNone, unit_normalized)
      else
        let s = py_strip (py_str B x) in
        if s = [] then (PNone, unit_normalized)
        else if fullmatch_plain_number s then (PNone, unit_normalized + 1)
        else
          let key = remove_char (CHR '' '') (remove_char (CHR ''.'') (py_upper s));
              canon = (case map_of UNIT_NORMALIZATION key of
                         Some v \<Rightarrow> v
                       | None \<Rightarrow> py_upper s)
          in (PStr canon, if canon \<noteq> s then unit_normalized + 1 else unit_normalized))"

text \<open>The coercer of a text column (the \<open>lambda\<close> of the coercion loop); it has no counter.\<close>

definition clean_text :: "builtins \<Rightarrow> pyval \<Rightarrow> pyval" where
  "clean_text B v =
     (if pd_isna v \<or> py_strip (py_str B v) = [] then PNone
      else PStr (py_strip (py_str B v)))"

section \<open>Data frames\<close>

text \<open>
  A data frame is its list of column names and its rows; a row associates each column
  name with the cell (the view \<open>to_dict(orient='records')\<close> gives). A cell that a row
  does not hold reads as NaN, as pandas fills a missing cell. The frame is taken as
  pandas holds it: a column of integers with a missing cell is a column of floats there,
  so its cells are floats here too.
\<close>

type_synonym row = "(string \<times> pyval) list"

record dataframe =
  columns :: "string list"
  rows :: "row list"

definition cell :: "row \<Rightarrow> string \<Rightarrow> pyval" where
  "cell r c = (case map_of r c of Some v \<Rightarrow> v | None \<Rightarrow> PFloat NaN)"

definition set_cell :: "row \<Rightarrow> string \<Rightarrow> pyval \<Rightarrow> row" where
  "set_cell r c v = map (\<lambda>(k, x). if k = c then (k, v) else (k, x)) r"

text \<open>\<open>df[cols]\<close> on one row.\<close>

definition select_columns :: "string list \<Rightarrow> row \<Rightarrow> row" where
  "select_columns cols r = map (\<lambda>c. (c, cell r c)) cols"

text \<open>\<open>df.empty\<close>: one of the two axes has length zero.\<close>

definition df_empty :: "dataframe \<Rightarrow> bool" where
  "df_empty df = (columns df = [] \<or> rows df = [])"

record report =
  dropped_rows :: nat
  num_coerced :: nat
  bool_coerced :: nat
  unit_normalized :: nat

text \<open>A frame in which every integer has a double, so that \<open>float\<close> raises on no cell.\<close>

definition frame_fits_double :: "dataframe \<Rightarrow> bool" where
  "frame_fits_double df = (\<forall>r \<in> set (rows df). \<forall>v \<in> set (map snd r). fits_double v)"

section \<open>Row filter and coercion: \<open>_clean_autocorrect\<close>\<close>

definition keep_columns :: "string list \<Rightarrow> string list" where
  "keep_columns cols =
     filter (\<lambda>c. c \<in> set [''id'', ''clave''] \<or> c \<in> set (map fst ALLOWED_MAP)) cols"

text \<open>\<open>df[key_col] = df[key_col].astype(str).str.strip()\<close> on one row.\<close>

definition stringify_key :: "builtins \<Rightarrow> string \<Rightarrow> row \<Rightarrow> row" where
  "stringify_key B key_col r = set_cell r key_col (PStr (py_strip (py_str B (cell r key_col))))"

text \<open>\<open>df[key_col].notna() & (df[key_col] != '')\<close> on one row.\<close>

definition key_present :: "string \<Rightarrow> row \<Rightarrow> bool" where
  "key_present key_col r = (\<not> pd_isna (cell r key_col) \<and> cell r key_col \<noteq> PStr [])"

text \<open>The rows that reach the echo-row test.\<close>

definition keyed_rows :: "builtins \<Rightarrow> dataframe \<Rightarrow> string \<Rightarrow> row list" where
  "keyed_rows B df key_col =
     filter (key_present key_col)
       (map (\<lambda>r. stringify_key B key_col (select_columns (keep_columns (columns df)) r))
          (rows df))"

text \<open>\<open>df[c].astype(str).str.strip().str.lower() == c\<close>, a boolean series.\<close>

definition echo_series :: "builtins \<Rightarrow> string \<Rightarrow> row list \<Rightarrow> bool list" where
  "echo_series B c rs = map (\<lambda>r. py_lower (py_strip (py_str B (cell r c))) = c) rs"

text \<open>The loop \<open>mask_template |= ...\<close> over \<open>sample_cols\<close>.\<close>

definition mask_template :: "builtins \<Rightarrow> string list \<Rightarrow> row list \<Rightarrow> bool list" where
  "mask_template B sample_cols rs =
     foldl (\<lambda>m c. map2 (\<or>) m (echo_series B c rs)) (replicate (length rs) False) sample_cols"

definition row_filter :: "builtins \<Rightarrow> dataframe \<Rightarrow> string \<Rightarrow> row list \<times> nat" where
  "row_filter B df key_col =
     (let rs = keyed_rows B df key_col;
          sample_cols = filter (\<lambda>c. c \<noteq> key_col) (keep_columns (columns df));
          mask = mask_template B sample_cols rs;
          dropped = length (filter (\<lambda>m. m) mask)
      in (if dropped \<noteq> 0 then map fst (filter (\<lambda>(r, m). \<not> m) (zip rs mask)) else rs,
          dropped))"

text \<open>
  \<open>df[col] = df[col].apply(f)\<close> for a coercer \<open>f\<close> with a counter; the first cell on
  which \<open>f\<close> raises ends it.
\<close>

fun apply_series ::
  "(pyval \<Rightarrow> nat \<Rightarrow> error + pyval \<times> nat) \<Rightarrow> string \<Rightarrow> row list \<Rightarrow> nat
     \<Rightarrow> error + row list \<times> nat" where
  "apply_series f col [] n = Inr ([], n)"
| "apply_series f col (r # rs) n =
     (case f (cell r col) n of
        Inl e \<Rightarrow> Inl e
      | Inr (v, n1) \<Rightarrow>
          (case apply_series f col rs n1 of
             Inl e \<Rightarrow> Inl e
           | Inr (rs', n2) \<Rightarrow> Inr (set_cell r col v # rs', n2)))"

definition coerce_column ::
  "builtins \<Rightarrow> string \<Rightarrow> semtype \<Rightarrow> row list \<times> report \<Rightarrow> error + row list \<times> report" where
  "coerce_column B col typ st =
     (let (rs, rep) = st in
      case typ of
        TNum \<Rightarrow>
          (case apply_series (parse_num B) col rs (num_coerced rep) of
             Inl e \<Rightarrow> Inl e
           | Inr (rs', n) \<Rightarrow> Inr (rs', rep\<lparr>num_coerced := n\<rparr>))
      | TBool \<Rightarrow>
          (case apply_series (parse_bool B) col rs (bool_coerced rep) of
             Inl e \<Rightarrow> Inl e
           | Inr (rs', n) \<Rightarrow> Inr (rs', rep\<lparr>bool_coerced := n\<rparr>))
      | TUnit \<Rightarrow>
          (case apply_series (\<lambda>x n. Inr (normalize_unit_name B x n)) col rs
                  (unit_normalized rep) of
             Inl e \<Rightarrow> Inl e
           | Inr (rs', n) \<Rightarrow> Inr (rs', rep\<lparr>unit_normalized := n\<rparr>))
      | TStr \<Rightarrow> Inr (map (\<lambda>r. set_cell r col (clean_text B (cell r col))) rs, rep))"

text \<open>The loop over \<open>ALLOWED_MAP.items()\<close>; an exception ends it.\<close>

definition coerce_all ::
  "builtins \<Rightarrow> string list \<Rightarrow> row list \<times> report \<Rightarrow> error + row list \<times> report" where
  "coerce_all B cols st0 =
     foldl (\<lambda>res (col, dbcol, typ).
              case res of
                Inl e \<Rightarrow> Inl e
              | Inr st \<Rightarrow> if col \<notin> set cols then Inr st else coerce_column B col typ st)
       (Inr st0) ALLOWED_MAP"

text \<open>
  \<open>df[key_col]\<close> raises \<open>KeyError\<close> when the key column is not among the kept columns;
  the one caller passes \<open>'id'\<close> or \<open>'clave'\<close> taken from the columns. An exception of
  a coercer leaves the function.
\<close>

definition clean_autocorrect ::
  "builtins \<Rightarrow> dataframe \<Rightarrow> string \<Rightarrow> error + dataframe \<times> report" where
  "clean_autocorrect B df key_col =
     (let keep = keep_columns (columns df) in
      if key_col \<notin> set keep then Inl KeyError
      else
        let (rs, dropped) = row_filter B df key_col in
        case coerce_all B keep
               (rs, \<lparr>dropped_rows = dropped, num_coerced = 0, bool_coerced = 0,
                     unit_normalized = 0\<rparr>) of
          Inl e \<Rightarrow> Inl e
        | Inr (rs', rep) \<Rightarrow> Inr (\<lparr>columns = keep, rows = rs'\<rparr>, rep))"

section \<open>The database connection\<close>

text \<open>
  The product table is a list of rows, a row giving each column its value (\<open>PNone\<close> is
  SQL \<open>NULL\<close>). A connection opened with \<open>autocommit=False\<close> holds the committed table,
  which other sessions see, and the working table of the open transaction. What the
  server decides is a parameter: whether connecting, the lookup read, a write or the
  commit raises, the rows the lookup read returns, and when the \<open>WHERE\<close> comparison of a
  stored key with a parameter holds. A value is stored as it is passed.
\<close>

type_synonym dbrow = "string \<Rightarrow> pyval"

type_synonym table = "dbrow list"

type_synonym params = "(string \<times> pyval) list"

record connection =
  committed :: table
  working :: table
  closed :: bool

record server =
  connect_raises :: bool
  lookup_rows :: "(pyval \<times> string option \<times> string option) list option"
  where_matches :: "pyval \<Rightarrow> pyval \<Rightarrow> bool"
  update_raises :: "table \<Rightarrow> params \<Rightarrow> bool"
  commit_raises :: bool

definition connect :: "table \<Rightarrow> connection" where
  "connect db = \<lparr>committed = db, working = db, closed = False\<rparr>"

definition commit :: "connection \<Rightarrow> connection" where
  "commit conn = conn\<lparr>committed := working conn\<rparr>"

definition rollback :: "connection \<Rightarrow> connection" where
  "rollback conn = conn\<lparr>working := committed conn\<rparr>"

text \<open>Closing discards the open transaction; closing a closed connection raises.\<close>

definition close :: "connection \<Rightarrow> error + connection" where
  "close conn =
     (if closed conn then Inl AlreadyClosed
      else Inr (conn\<lparr>working := committed conn, closed := True\<rparr>))"

text \<open>
  The write statement
  \<open>UPDATE articulo SET dbcol=COALESCE(%(c)s,dbcol), ... WHERE where_col=%(key_col)s\<close>
  as data: the pairs \<open>(dbcol, c)\<close> of the \<open>SET\<close> list, the \<open>WHERE\<close> column and the name
  of the key parameter.
\<close>

record update_stmt =
  set_parts :: "(string \<times> string) list"
  where_col :: string
  key_param :: string

definition COALESCE :: "pyval \<Rightarrow> pyval \<Rightarrow> pyval" where
  "COALESCE v old = (if v = PNone then old else v)"

definition param :: "params \<Rightarrow> string \<Rightarrow> pyval" where
  "param ps c = (case map_of ps c of Some v \<Rightarrow> v | None \<Rightarrow> PNone)"

definition apply_update :: "server \<Rightarrow> update_stmt \<Rightarrow> params \<Rightarrow> dbrow \<Rightarrow> dbrow" where
  "apply_update S st ps rw =
     (if where_matches S (rw (where_col st)) (param ps (key_param st))
      then foldl (\<lambda>r (dbcol, c). r(dbcol := COALESCE (param ps c) (r dbcol))) rw (set_parts st)
      else rw)"

text \<open>
  \<open>cur.executemany(sql_upd, rows)\<close> runs the statement once for each parameter row, in
  order, inside the open transaction; the first statement that raises ends it, and the
  connection keeps what the earlier ones wrote to the working table.
\<close>

fun executemany ::
  "server \<Rightarrow> update_stmt \<Rightarrow> params list \<Rightarrow> connection \<Rightarrow> error option \<times> connection" where
  "executemany S st [] conn = (None, conn)"
| "executemany S st (ps # rest) conn =
     (if update_raises S (working conn) ps then (Some DBError, conn)
      else executemany S st rest (conn\<lparr>working := map (apply_update S st ps) (working conn)\<rparr>))"

text \<open>The table with every statement of the batch applied.\<close>

definition all_applied :: "server \<Rightarrow> update_stmt \<Rightarrow> params list \<Rightarrow> table \<Rightarrow> table" where
  "all_applied S st recs db = foldl (\<lambda>t ps. map (apply_update S st ps) t) db recs"

section \<open>Upload: \<open>upload_excel_to_db\<close>\<close>

text \<open>
  \<open>df.columns = [str(c).strip().lower() for c in df.columns]\<close> and
  \<open>df.loc[:, ~df.columns.duplicated()]\<close>: of several columns with one name the first
  stays.
\<close>

definition normalize_columns :: "dataframe \<Rightarrow> dataframe" where
  "normalize_columns df =
     (let nm = (\<lambda>c. py_lower (py_strip c));
          cols = rev (remdups (rev (map nm (columns df))))
      in \<lparr>columns = cols,
          rows = map (\<lambda>r. select_columns cols (map (\<lambda>(k, v). (nm k, v)) r)) (rows df)\<rparr>)"

definition select_key_col :: "string list \<Rightarrow> string option" where
  "select_key_col cols =
     (if ''id'' \<in> set cols then Some ''id''
      else if ''clave'' \<in> set cols then Some ''clave'' else None)"

text \<open>The dictionary \<open>unit_key_to_id\<close> built from the rows of the lookup read.\<close>

definition unit_key_to_id ::
  "(pyval \<times> string option \<times> string option) list \<Rightarrow> (string \<rightharpoonup> pyval)" where
  "unit_key_to_id rows_lookup =
     foldl (\<lambda>m (uid, key_nombre, key_abrev).
        let m1 = (case key_nombre of
                    Some k \<Rightarrow> if k \<noteq> [] then m(k \<mapsto> uid) else m
                  | None \<Rightarrow> m)
        in (case key_abrev of
              Some k \<Rightarrow> if k \<noteq> [] then m1(k \<mapsto> uid) else m1
            | None \<Rightarrow> m1))
       Map.empty rows_lookup"

definition to_unit_id :: "builtins \<Rightarrow> (string \<rightharpoonup> pyval) \<Rightarrow> pyval \<Rightarrow> pyval" where
  "to_unit_id B m x =
     (if pd_isna x \<or> py_strip (py_str B x) = [] then PNone
      else
        let s = py_upper (py_strip (py_str B x));
            s = (case map_of UNIT_NORMALIZATION s of Some v \<Rightarrow> v | None \<Rightarrow> s);
            key = filter (\<lambda>c. c \<noteq> CHR '' '' \<and> c \<noteq> CHR ''.'') s
        in (case m key of Some uid \<Rightarrow> uid | None \<Rightarrow> PNone))"

definition resolve_units :: "builtins \<Rightarrow> (string \<rightharpoonup> pyval) \<Rightarrow> dataframe \<Rightarrow> dataframe" where
  "resolve_units B m df =
     foldl (\<lambda>d col.
        if col \<in> set (columns d)
        then d\<lparr>rows := map (\<lambda>r. set_cell r col (to_unit_id B m (cell r col))) (rows d)\<rparr>
        else d)
       df [''unidad_compra'', ''unidad_venta'']"

definition update_cols_of :: "dataframe \<Rightarrow> string list" where
  "update_cols_of clean_df = filter (\<lambda>c. c \<in> set (map fst ALLOWED_MAP)) (columns clean_df)"

definition dbcol_of :: "string \<Rightarrow> string" where
  "dbcol_of c = (case map_of ALLOWED_MAP c of Some (dbcol, typ) \<Rightarrow> dbcol | None \<Rightarrow> [])"

definition sql_upd :: "string list \<Rightarrow> string \<Rightarrow> update_stmt" where
  "sql_upd update_cols key_col =
     \<lparr>set_parts = map (\<lambda>c. (dbcol_of c, c)) update_cols,
      where_col = (if key_col = ''id'' then ''art_id'' else ''clave''),
      key_param = key_col\<rparr>"

definition df_to_mysql_params :: "string list \<Rightarrow> dataframe \<Rightarrow> params list" where
  "df_to_mysql_params present df =
     map (\<lambda>r. map (\<lambda>c. (c, to_py_mysql (where_notnull (cell r c)))) present) (rows df)"

datatype message =
    Excel_vacio
  | Sin_identificador
  | Sin_columnas_de_datos
  | Subida_completada nat report
  | Error_al_subir

datatype event =
    Connect
  | Execute_lookups
  | Executemany nat
  | Commit
  | Rollback
  | Close
  | Show_message message

datatype flow = Returned | Raised error

record outcome =
  events :: "event list"
  final_db :: table

text \<open>
  The statement and the parameter rows that the upload hands to \<open>executemany\<close>, from the
  cleaned frame and the rows of the lookup read.
\<close>

definition batch_of ::
  "builtins \<Rightarrow> (pyval \<times> string option \<times> string option) list \<Rightarrow> dataframe \<Rightarrow> string
     \<Rightarrow> update_stmt \<times> params list" where
  "batch_of B rows_lookup clean_df key_col =
     (let df = resolve_units B (unit_key_to_id rows_lookup) clean_df;
          update_cols = update_cols_of df;
          present = update_cols @ [key_col]
      in (sql_upd update_cols key_col, df_to_mysql_params present df))"

text \<open>The body of the inner \<open>try\<close>, from the lookup read to the completion message.\<close>

definition try_body ::
  "builtins \<Rightarrow> server \<Rightarrow> dataframe \<Rightarrow> report \<Rightarrow> string \<Rightarrow> connection
     \<Rightarrow> flow \<times> connection \<times> event list" where
  "try_body B S clean_df rep key_col conn =
     (case lookup_rows S of
        None \<Rightarrow> (Raised DBError, conn, [Execute_lookups])
      | Some rows_lookup \<Rightarrow>
          let (stmt, recs) = batch_of B rows_lookup clean_df key_col in
          if set_parts stmt = [] then
            (case close (rollback conn) of
               Inr conn' \<Rightarrow>
                 (Returned, conn',
                  [Execute_lookups, Show_message Sin_columnas_de_datos, Rollback, Close])
             | Inl e \<Rightarrow>
                 (Raised e, conn,
                  [Execute_lookups, Show_message Sin_columnas_de_datos, Rollback, Close]))
          else
            (case executemany S stmt recs conn of
               (Some e, conn1) \<Rightarrow>
                 (Raised e, conn1, [Execute_lookups, Executemany (length recs)])
             | (None, conn1) \<Rightarrow>
                 if commit_raises S then
                   (Raised DBError, conn1, [Execute_lookups, Executemany (length recs), Commit])
                 else
                   (Returned, commit conn1,
                    [Execute_lookups, Executemany (length recs), Commit,
                     Show_message (Subida_completada (length recs) rep)])))"

text \<open>
  The upload from the frame that \<open>_read_excel_safe\<close> returned. An exception of
  \<open>_clean_autocorrect\<close> is outside every \<open>try\<close> and leaves the function; everything
  raised after that reaches the outer handler, which shows the failure message.
\<close>

definition upload_excel_to_db ::
  "builtins \<Rightarrow> server \<Rightarrow> table \<Rightarrow> dataframe \<Rightarrow> error + outcome" where
  "upload_excel_to_db B S db df0 =
     (if df_empty df0 then Inr \<lparr>events = [Show_message Excel_vacio], final_db = db\<rparr>
      else
        let df = normalize_columns df0 in
        case select_key_col (columns df) of
          None \<Rightarrow> Inr \<lparr>events = [Show_message Sin_identificador], final_db = db\<rparr>
        | Some key_col \<Rightarrow>
            (case clean_autocorrect B df key_col of
               Inl e \<Rightarrow> Inl e
             | Inr (clean_df, rep) \<Rightarrow>
                 if connect_raises S then
                   Inr \<lparr>events = [Connect, Show_message Error_al_subir], final_db = db\<rparr>
                 else
                   let (fl, conn1, evs) = try_body B S clean_df rep key_col (connect db);
                       (conn2, evs2) =
                         (case fl of
                            Raised e \<Rightarrow> (rollback conn1, evs @ [Rollback])
                          | Returned \<Rightarrow> (conn1, evs));
                       (fl3, conn3) =
                         (case close conn2 of
                            Inr c \<Rightarrow> (fl, c)
                          | Inl e \<Rightarrow> (Raised e, conn2));
                       evs3 = evs2 @ [Close];
                       evs4 =
                         (case fl3 of
                            Raised e \<Rightarrow> evs3 @ [Show_message Error_al_subir]
                          | Returned \<Rightarrow> evs3)
                   in Inr \<lparr>events = Connect # evs4, final_db = committed conn3\<rparr>))"

section \<open>An instance of the builtins for worked examples\<close>

text \<open>
  \<open>float\<close> on a plain decimal numeral (sign, digits, optional fraction) gives its exact
  value, and \<open>str\<close> of a whole float writes the integer followed by \<open>.0\<close>, as Python
  does below \<open>1e16\<close>. The examples use the instance on such inputs only.
\<close>

definition digits_value :: "string \<Rightarrow> nat" where
  "digits_value ds = foldl (\<lambda>n c. 10 * n + (code_point c - 48)) 0 ds"

definition float_of_decimal :: "string \<Rightarrow> pyfloat option" where
  "float_of_decimal s =
     (if match_num s \<noteq> Some s then None
      else
        let neg = (take 1 s = ''-'');
            u = (if neg then drop 1 s else s);
            ip = takeWhile is_digit u;
            fp = drop (length ip + 1) u;
            v = of_nat (digits_value ip) + of_nat (digits_value fp) / 10 ^ length fp
        in Some (Fin (if neg then - v else v)))"

definition str_of_whole :: "rat \<Rightarrow> string" where
  "str_of_whole r = str_int \<lfloor>r\<rfloor> @ ''.0''"

definition decimal_builtins :: builtins where
  "decimal_builtins = \<lparr>float_of_text = float_of_decimal, str_of_float = str_of_whole\<rparr>"

text \<open>
  A sheet for the examples: a plain row whose cell in the unmapped column \<open>notas\<close> reads
  as the name of that column, an echo row, and a row without a key whose description
  reads as the name of another column.
\<close>

definition ex_row1 :: row where
  "ex_row1 = [(''id'', PInt 1), (''descripcion'', PStr ''  Pan  ''),
              (''existencia'', PStr ''10,5''), (''notas'', PStr ''Notas'')]"

definition ex_row2 :: row where
  "ex_row2 = [(''id'', PInt 2), (''descripcion'', PStr ''descripcion''),
              (''existencia'', PFloat NaN), (''notas'', PStr ''x'')]"

definition ex_row3 :: row where
  "ex_row3 = [(''id'', PFloat NaN), (''descripcion'', PStr ''existencia''),
              (''existencia'', PFloat (Fin 3)), (''notas'', PStr ''y'')]"

definition ex_df :: dataframe where
  "ex_df = \<lparr>columns = [''id'', ''descripcion'', ''existencia'', ''notas''],
            rows = [ex_row1, ex_row2, ex_row3]\<rparr>"

text \<open>
  A server and a product table for the examples. The server compares a stored key with
  the text of a parameter; \<open>failing_server\<close> raises on the statement for key "2".
  The frames: two rows with values, two rows with one key of which the first has no
  stock value, one row with no stock value, and a frame of the key column alone.
\<close>

definition ex_server :: server where
  "ex_server =
     \<lparr>connect_raises = False,
      lookup_rows = Some [(PInt 7, Some ''PIEZA'', None)],
      where_matches = (\<lambda>stored p. p = PStr (py_str decimal_builtins stored)),
      update_raises = (\<lambda>t ps. False),
      commit_raises = False\<rparr>"

definition failing_server :: server where
  "failing_server = ex_server\<lparr>update_raises := (\<lambda>t ps. param ps ''id'' = PStr ''2'')\<rparr>"

definition ex_db :: table where
  "ex_db = [(\<lambda>c. PNone)(''art_id'' := PInt 1, ''existencia'' := PFloat (Fin 5))]"

definition two_df :: dataframe where
  "two_df = \<lparr>columns = [''id'', ''existencia''],
             rows = [[(''id'', PInt 1), (''existencia'', PInt 7)],
                     [(''id'', PInt 2), (''existencia'', PInt 9)]]\<rparr>"

definition dup_df :: dataframe where
  "dup_df = \<lparr>columns = [''id'', ''existencia''],
             rows = [[(''id'', PInt 1), (''existencia'', PFloat NaN)],
                     [(''id'', PInt 1), (''existencia'', PFloat (Fin 7))]]\<rparr>"

definition null_df :: dataframe where
  "null_df = \<lparr>columns = [''id'', ''existencia''],
              rows = [[(''id'', PInt 1), (''existencia'', PFloat NaN)]]\<rparr>"

definition key_only_df :: dataframe where
  "key_only_df = \<lparr>columns = [''id''], rows = [[(''id'', PInt 1)]]\<rparr>"

text \<open>
  Two sheets of one row whose key is a blank: in the first the description reads as the
  name of its column, in the second only the cell of the unmapped column \<open>notas\<close> reads
  as the name of its column; and the second sheet with a key.
\<close>

definition blank_echo_row :: row where
  "blank_echo_row = [(''id'', PStr '' ''), (''descripcion'', PStr ''descripcion'')]"

definition blank_echo_df :: dataframe where
  "blank_echo_df = \<lparr>columns = [''id'', ''descripcion''], rows = [blank_echo_row]\<rparr>"

definition blank_notes_row :: row where
  "blank_notes_row = [(''id'', PStr '' ''), (''descripcion'', PStr ''Pan''),
                      (''notas'', PStr ''notas'')]"

definition blank_notes_df :: dataframe where
  "blank_notes_df = \<lparr>columns = [''id'', ''descripcion'', ''notas''], rows = [blank_notes_row]\<rparr>"

definition notes_row :: row where
  "notes_row = [(''id'', PInt 1), (''descripcion'', PStr ''Pan''), (''notas'', PStr ''notas'')]"

definition notes_df :: dataframe where
  "notes_df = \<lparr>columns = [''id'', ''descripcion'', ''notas''], rows = [notes_row]\<rparr>"


section \<open>Notions of the specification\<close>

text \<open>
  A numeric token in the words of the specification: an optional sign, digits, and an
  optional fractional part (a point and digits).
\<close>

definition digits_run :: "string \<Rightarrow> bool" where
  "digits_run ds = (ds \<noteq> [] \<and> list_all is_digit ds)"

definition unsigned_token :: "string \<Rightarrow> bool" where
  "unsigned_token u =
     (\<exists>ds. digits_run ds \<and> (u = ds \<or> (\<exists>fs. digits_run fs \<and> u = ds @ CHR ''.'' # fs)))"

definition numeric_token :: "string \<Rightarrow> bool" where
  "numeric_token t = (unsigned_token t \<or> (\<exists>u. t = CHR ''-'' # u \<and> unsigned_token u))"

text \<open>
  An echo row in the words of the specification: some cell outside the key column whose
  trimmed, lower-cased text is the name of its own column.
\<close>

definition echo_row :: "builtins \<Rightarrow> string list \<Rightarrow> string \<Rightarrow> row \<Rightarrow> bool" where
  "echo_row B cols key_col r =
     (\<exists>c \<in> set cols. c \<noteq> key_col \<and> py_lower (py_strip (py_str B (cell r c))) = c)"

text \<open>
  The columns that the specification calls recognized: the two key columns and the
  twelve data columns of the registry (description, stock, service flag, purchase price,
  three price tiers, purchase unit, sale unit, conversion factor, bulk flag, alternate
  code). A row echoes in a recognized column when some recognized column of the sheet,
  other than the key column, holds its own name as trimmed, lower-cased text.
\<close>

definition recognized :: "string \<Rightarrow> bool" where
  "recognized c =
     (c \<in> set [''id'', ''clave'', ''descripcion'', ''existencia'', ''servicio'', ''precio_compra'',
               ''precio1'', ''precio2'', ''precio3'', ''unidad_compra'', ''unidad_venta'',
               ''factor'', ''granel'', ''clave_alterna''])"

definition recognized_echo :: "builtins \<Rightarrow> string list \<Rightarrow> string \<Rightarrow> row \<Rightarrow> bool" where
  "recognized_echo B cols key_col r =
     (\<exists>c \<in> set cols. recognized c \<and> c \<noteq> key_col \<and>
        py_lower (py_strip (py_str B (cell r c))) = c)"

text \<open>
  The statement and the parameter rows with which an upload reaches the bulk write, when
  it gets as far as the lookup read and that read succeeds.
\<close>

definition upload_batch ::
  "builtins \<Rightarrow> server \<Rightarrow> dataframe \<Rightarrow> (update_stmt \<times> params list) option" where
  "upload_batch B S df0 =
     (if df_empty df0 then None
      else
        let df = normalize_columns df0 in
        case select_key_col (columns df) of
          None \<Rightarrow> None
        | Some key_col \<Rightarrow>
            (case clean_autocorrect B df key_col of
               Inl e \<Rightarrow> None
             | Inr (clean_df, rep) \<Rightarrow>
                 (case lookup_rows S of
                    None \<Rightarrow> None
                  | Some rows_lookup \<Rightarrow> Some (batch_of B rows_lookup clean_df key_col))))"

section \<open>The search for a numeric token\<close>

text \<open>
  The match at the head of a string is a numeric token, and no numeric token at the head
  is longer; the search returns the match at the leftmost position that has one.
\<close>

lemma not_digit_dot [simp]: "\<not> is_digit (CHR ''.'')"
  by (simp add: is_digit_def code_point_def)

lemma not_digit_minus [simp]: "\<not> is_digit (CHR ''-'')"
  by (simp add: is_digit_def code_point_def)

lemma takeWhile_digits_run:
  "list_all is_digit ds \<Longrightarrow> takeWhile is_digit (ds @ c # r) = (if is_digit c then ds @ c # takeWhile is_digit r else ds)"
  by (induction ds) auto

lemma takeWhile_all: "list_all is_digit ds \<Longrightarrow> takeWhile is_digit (ds @ r) = ds @ takeWhile is_digit r"
  by (induction ds) auto

lemma dropWhile_all: "list_all is_digit ds \<Longrightarrow> dropWhile is_digit (ds @ r) = dropWhile is_digit r"
  by (induction ds) auto

lemma list_all_takeWhile: "list_all P (takeWhile P xs)"
  by (induction xs) auto

lemma match_unsigned_sound:
  assumes "match_unsigned s = Some m"
  shows "unsigned_token m \<and> prefix m s"
proof -
  let ?D = "takeWhile is_digit s"
  let ?R = "dropWhile is_digit s"
  from assms have D: "?D \<noteq> []" by (auto simp: match_unsigned_def Let_def split: if_splits)
  have runD: "digits_run ?D" using D by (simp add: digits_run_def list_all_takeWhile)
  have s: "s = ?D @ ?R" by simp
  show ?thesis
  proof (cases ?R)
    case Nil
    with assms D have "m = ?D" by (simp add: match_unsigned_def Let_def)
    with runD s show ?thesis unfolding unsigned_token_def by (metis prefixI)
  next
    case (Cons c t)
    show ?thesis
    proof (cases "c = CHR ''.'' \<and> takeWhile is_digit t \<noteq> []")
      case True
      with assms D Cons have m: "m = ?D @ CHR ''.'' # takeWhile is_digit t"
        by (simp add: match_unsigned_def Let_def)
      have "digits_run (takeWhile is_digit t)" using True by (simp add: digits_run_def list_all_takeWhile)
      with runD m have "unsigned_token m" unfolding unsigned_token_def by blast
      moreover have "s = m @ dropWhile is_digit t"
        using s Cons True m by (metis append.assoc append_Cons takeWhile_dropWhile_id)
      ultimately show ?thesis by (metis prefixI)
    next
      case False
      with assms D Cons have "m = ?D" by (auto simp add: match_unsigned_def Let_def)
      with runD s show ?thesis unfolding unsigned_token_def by (metis prefixI)
    qed
  qed
qed

lemma match_unsigned_complete:
  assumes "unsigned_token u" "prefix u s"
  shows "\<exists>m. match_unsigned s = Some m \<and> length u \<le> length m"
proof -
  from assms(1) obtain ds where ds: "digits_run ds" and
    u: "u = ds \<or> (\<exists>fs. digits_run fs \<and> u = ds @ CHR ''.'' # fs)"
    unfolding unsigned_token_def by blast
  from u show ?thesis
  proof
    assume "u = ds"
    with assms(2) obtain r where s: "s = ds @ r" by (auto simp: prefix_def)
    have tw: "takeWhile is_digit s = ds @ takeWhile is_digit r"
      using ds s by (simp add: digits_run_def takeWhile_all)
    then have ne: "takeWhile is_digit s \<noteq> []" using ds by (simp add: digits_run_def)
    then have "\<exists>m. match_unsigned s = Some m \<and> length (takeWhile is_digit s) \<le> length m"
      by (auto simp: match_unsigned_def Let_def split: list.splits)
    with tw \<open>u = ds\<close> show ?thesis by auto
  next
    assume "\<exists>fs. digits_run fs \<and> u = ds @ CHR ''.'' # fs"
    then obtain fs where fs: "digits_run fs" and u': "u = ds @ CHR ''.'' # fs" by blast
    with assms(2) obtain r where s: "s = ds @ CHR ''.'' # fs @ r" by (auto simp: prefix_def)
    have tw: "takeWhile is_digit s = ds" using ds s by (simp add: digits_run_def takeWhile_digits_run)
    have dw: "dropWhile is_digit s = CHR ''.'' # fs @ r" using ds s by (simp add: digits_run_def dropWhile_all)
    have tf: "takeWhile is_digit (fs @ r) = fs @ takeWhile is_digit r"
      using fs by (simp add: digits_run_def takeWhile_all)
    have "match_unsigned s = Some (ds @ CHR ''.'' # fs @ takeWhile is_digit r)"
      using tw dw tf ds fs by (simp add: match_unsigned_def Let_def digits_run_def)
    with u' show ?thesis by simp
  qed
qed

lemma unsigned_token_head: "unsigned_token u \<Longrightarrow> \<exists>c t. u = c # t \<and> is_digit c"
  unfolding unsigned_token_def digits_run_def by (auto simp: neq_Nil_conv)

lemma match_num_sound:
  assumes "match_num s = Some m"
  shows "numeric_token m \<and> prefix m s"
  using assms match_unsigned_sound
  by (auto simp: match_num_def numeric_token_def split: list.splits if_splits option.splits)

lemma match_num_complete:
  assumes "numeric_token u" "prefix u s"
  shows "\<exists>m. match_num s = Some m \<and> length u \<le> length m"
proof -
  from assms(1) consider (pos) "unsigned_token u" | (neg) v where "u = CHR ''-'' # v" "unsigned_token v"
    unfolding numeric_token_def by blast
  then show ?thesis
  proof cases
    case pos
    then obtain c t where ct: "u = c # t" "is_digit c" using unsigned_token_head by blast
    with assms(2) obtain r where s: "s = c # r" by (auto simp: prefix_def)
    from ct have "c \<noteq> CHR ''-''" by auto
    with s have "match_num s = match_unsigned s" by (simp add: match_num_def)
    with match_unsigned_complete[OF pos assms(2)] show ?thesis by simp
  next
    case neg
    with assms(2) obtain r where s: "s = CHR ''-'' # r" and p: "prefix v r" by (auto simp: prefix_def)
    from match_unsigned_complete[OF neg(2) p] obtain m where "match_unsigned r = Some m" "length v \<le> length m" by blast
    with s neg show ?thesis by (simp add: match_num_def)
  qed
qed

lemma re_search_num_None:
  "re_search_num s = None \<Longrightarrow> s = pre @ tok @ post \<Longrightarrow> \<not> numeric_token tok"
proof (induction s arbitrary: pre)
  case Nil
  then show ?case by (auto simp: numeric_token_def dest: unsigned_token_head)
next
  case (Cons c cs)
  from Cons.prems(1) have mn: "match_num (c # cs) = None" and rs: "re_search_num cs = None"
    by (auto split: option.splits)
  show ?case
  proof (cases pre)
    case Nil
    with Cons.prems(2) have "prefix tok (c # cs)" by (simp add: prefix_def)
    with mn match_num_complete show ?thesis by fastforce
  next
    case (Cons a pre')
    with Cons.prems(2) have "cs = pre' @ tok @ post" by simp
    with Cons.IH[OF rs] show ?thesis by blast
  qed
qed

lemma re_search_num_Some:
  "re_search_num s = Some m \<Longrightarrow>
     \<exists>pre post. s = pre @ m @ post \<and> numeric_token m \<and>
       (\<forall>pre' tok' post'. s = pre' @ tok' @ post' \<and> numeric_token tok' \<longrightarrow>
          length pre \<le> length pre' \<and> (length pre' = length pre \<longrightarrow> length tok' \<le> length m))"
proof (induction s)
  case Nil
  then show ?case by simp
next
  case (Cons c cs)
  show ?case
  proof (cases "match_num (c # cs)")
    case (Some m')
    with Cons.prems have mm: "m' = m" by simp
    from match_num_sound[OF Some] mm obtain post where p: "c # cs = [] @ m @ post" and tk: "numeric_token m"
      by (auto simp: prefix_def)
    have "\<forall>pre' tok' post'. c # cs = pre' @ tok' @ post' \<and> numeric_token tok' \<longrightarrow>
          length ([]::string) \<le> length pre' \<and> (length pre' = length ([]::string) \<longrightarrow> length tok' \<le> length m)"
    proof (intro allI impI conjI)
      fix pre' tok' post'
      assume a: "c # cs = pre' @ tok' @ post' \<and> numeric_token tok'" and l: "length pre' = length ([]::string)"
      then have "prefix tok' (c # cs)" by (simp add: prefix_def)
      with a match_num_complete Some mm show "length tok' \<le> length m" by fastforce
    qed simp
    with p tk show ?thesis by blast
  next
    case None
    with Cons.prems have rs: "re_search_num cs = Some m" by simp
    from Cons.IH[OF rs] obtain pre post where
      s: "cs = pre @ m @ post" and tk: "numeric_token m" and
      mn: "\<forall>pre' tok' post'. cs = pre' @ tok' @ post' \<and> numeric_token tok' \<longrightarrow>
          length pre \<le> length pre' \<and> (length pre' = length pre \<longrightarrow> length tok' \<le> length m)"
      by blast
    have "\<forall>pre' tok' post'. c # cs = pre' @ tok' @ post' \<and> numeric_token tok' \<longrightarrow>
          length (c # pre) \<le> length pre' \<and> (length pre' = length (c # pre) \<longrightarrow> length tok' \<le> length m)"
    proof (intro allI impI)
      fix pre' tok' post'
      assume a: "c # cs = pre' @ tok' @ post' \<and> numeric_token tok'"
      show "length (c # pre) \<le> length pre' \<and> (length pre' = length (c # pre) \<longrightarrow> length tok' \<le> length m)"
      proof (cases pre')
        case Nil
        with a have "prefix tok' (c # cs)" by (simp add: prefix_def)
        with a match_num_complete None show ?thesis by fastforce
      next
        case (Cons a' p'')
        with a have "cs = p'' @ tok' @ post'" "numeric_token tok'" by auto
        with mn Cons show ?thesis by auto
      qed
    qed
    moreover have "c # cs = (c # pre) @ m @ post" using s by simp
    ultimately show ?thesis using tk by blast
  qed
qed

section \<open>The numeric coercer on text\<close>

lemma parse_num_PStr:
  "parse_num B (PStr t) n =
     (if py_strip t = [] then Inr (PNone, n)
      else (case re_search_num (replace_char (CHR '','') (CHR ''.'') (py_strip t)) of
              Some m \<Rightarrow>
                Inr ((case float_of_text B m of Some f \<Rightarrow> PFloat f | None \<Rightarrow> PNone),
                     if replace_char (CHR '','') (CHR ''.'') (py_strip t) \<noteq> m then n + 1 else n)
            | None \<Rightarrow> Inr (PNone, n)))"
  by (simp add: parse_num_def pd_isna_def is_number_def py_str_def Let_def split: option.splits)

text \<open>
  Claim C4. For a textual input, let \<open>s\<close> be the trimmed text with every comma turned
  into a point. If the trimmed text is empty or \<open>s\<close> holds no numeric token, the result
  is null and the counter is unchanged (no error). Otherwise the result is \<open>float\<close> of the
  first numeric token of \<open>s\<close>: the token at the leftmost position where one starts, and
  the longest one there. The counter goes up by one exactly when that token differs from
  the whole of \<open>s\<close>, that is, when text around the number was discarded.
\<close>

theorem parse_num_text_first_token:
  "let s = replace_char (CHR '','') (CHR ''.'') (py_strip t) in
   if py_strip t = [] \<or> (\<forall>pre tok post. s = pre @ tok @ post \<longrightarrow> \<not> numeric_token tok)
   then parse_num B (PStr t) n = Inr (PNone, n)
   else \<exists>pre tok post.
          s = pre @ tok @ post \<and> numeric_token tok \<and>
          (\<forall>pre' tok' post'. s = pre' @ tok' @ post' \<and> numeric_token tok' \<longrightarrow>
             length pre \<le> length pre' \<and> (length pre' = length pre \<longrightarrow> length tok' \<le> length tok)) \<and>
          parse_num B (PStr t) n =
            Inr ((case float_of_text B tok of Some f \<Rightarrow> PFloat f | None \<Rightarrow> PNone),
             if tok \<noteq> s then n + 1 else n)"
proof -
  define s where "s = replace_char (CHR '','') (CHR ''.'') (py_strip t)"
  show ?thesis
  proof (cases "re_search_num s")
    case None
    then have no: "\<forall>pre tok post. s = pre @ tok @ post \<longrightarrow> \<not> numeric_token tok"
      using re_search_num_None by blast
    have "parse_num B (PStr t) n = Inr (PNone, n)"
      using None by (simp add: parse_num_PStr s_def)
    with no show ?thesis by (simp add: s_def Let_def)
  next
    case (Some m)
    from re_search_num_Some[OF Some] obtain pre post where
      dec: "s = pre @ m @ post" and tk: "numeric_token m" and
      first: "\<forall>pre' tok' post'. s = pre' @ tok' @ post' \<and> numeric_token tok' \<longrightarrow>
          length pre \<le> length pre' \<and> (length pre' = length pre \<longrightarrow> length tok' \<le> length m)"
      by blast
    show ?thesis
    proof (cases "py_strip t = []")
      case True
      then have "s = []" by (simp add: s_def replace_char_def)
      with Some show ?thesis by simp
    next
      case False
      then have pn: "parse_num B (PStr t) n =
            Inr ((case float_of_text B m of Some f \<Rightarrow> PFloat f | None \<Rightarrow> PNone),
             if m \<noteq> s then n + 1 else n)"
        using Some by (auto simp add: parse_num_PStr s_def)
      have "\<not> (\<forall>pre tok post. s = pre @ tok @ post \<longrightarrow> \<not> numeric_token tok)"
        using dec tk by blast
      with False dec tk first pn show ?thesis
        unfolding Let_def s_def [symmetric] by (simp only: if_False simp_thms) blast
    qed
  qed
qed

theorem parse_num_text_first_token_witness:
  "(\<exists>pre tok post.
      ''12.5 kg'' = pre @ tok @ post \<and> numeric_token tok \<and>
      parse_num decimal_builtins (PStr ''12.5 kg'') 0 =
        Inr ((case float_of_text decimal_builtins tok of Some f \<Rightarrow> PFloat f | None \<Rightarrow> PNone),
         if tok \<noteq> ''12.5 kg'' then 0 + 1 else 0)) \<and>
   parse_num decimal_builtins (PStr ''12.5 kg'') 0 = Inr (PFloat (Fin (25 / 2)), 1)"
proof -
  have s: "replace_char (CHR '','') (CHR ''.'') (py_strip ''12.5 kg'') = ''12.5 kg''"
    by code_simp
  have ne: "py_strip ''12.5 kg'' \<noteq> []"
    by code_simp
  have "digits_run ''12''" and "digits_run ''5''"
    by (simp_all add: digits_run_def is_digit_def code_point_def)
  then have "unsigned_token (''12'' @ CHR ''.'' # ''5'')"
    unfolding unsigned_token_def by blast
  then have tok: "numeric_token ''12.5''"
    by (simp add: numeric_token_def)
  have "''12.5 kg'' = [] @ ''12.5'' @ '' kg''"
    by simp
  with tok have ex: "\<not> (\<forall>pre tok post. ''12.5 kg'' = pre @ tok @ post \<longrightarrow> \<not> numeric_token tok)"
    by blast
  have "\<exists>pre tok post.
      ''12.5 kg'' = pre @ tok @ post \<and> numeric_token tok \<and>
      parse_num decimal_builtins (PStr ''12.5 kg'') 0 =
        Inr ((case float_of_text decimal_builtins tok of Some f \<Rightarrow> PFloat f | None \<Rightarrow> PNone),
         if tok \<noteq> ''12.5 kg'' then 0 + 1 else 0)"
    using parse_num_text_first_token [of "''12.5 kg''" decimal_builtins 0] ne ex
    unfolding Let_def s by (simp only: if_False simp_thms) blast
  moreover have "parse_num decimal_builtins (PStr ''12.5 kg'') 0 = Inr (PFloat (Fin (25 / 2)), 1)"
    by code_simp
  ultimately show ?thesis by blast
qed

section \<open>The boolean coercer on text\<close>

lemma parse_bool_PStr:
  "parse_bool B (PStr t) n =
     (let s = py_lower (py_strip t) in
      if s \<in> set TRUE_TOKENS then Inr (PInt 1, if s \<notin> set [''1'', ''true''] then n + 1 else n)
      else if s \<in> set FALSE_TOKENS then Inr (PInt 0, if s \<notin> set [''0'', ''false''] then n + 1 else n)
      else (case float_of_text B (replace_char (CHR '','') (CHR ''.'') s) of
              Some v \<Rightarrow> Inr (PInt (if v \<noteq> Fin 0 then 1 else 0), n + 1)
            | None \<Rightarrow> Inr (PNone, n)))"
  by (simp add: parse_bool_def pd_isna_def is_number_def py_str_def Let_def)

text \<open>
  Claim C5. For a textual input, the trimmed, lower-cased text is compared with the
  tokens: one of 1, true, t, si, si with an accented i (U+00ED), y, yes gives true (1)
  and one of 0, false, f, no, n gives false (0); the counter goes up by one exactly when
  the token is not one of the canonical forms 1, 0, true, false. In particular the
  accented si, "SI" and "Yes" give true with the counter raised, and "1" and "true" give
  true with the counter unchanged.
\<close>

theorem parse_bool_text_tokens:
  "(py_lower (py_strip t) \<in> {''1'', ''true'', ''t'', ''si'', [CHR ''s'', CHR 0xED], ''y'', ''yes''} \<longrightarrow>
      parse_bool B (PStr t) n =
        Inr (PInt 1, if py_lower (py_strip t) \<in> {''1'', ''true''} then n else n + 1)) \<and>
   (py_lower (py_strip t) \<in> {''0'', ''false'', ''f'', ''no'', ''n''} \<longrightarrow>
      parse_bool B (PStr t) n =
        Inr (PInt 0, if py_lower (py_strip t) \<in> {''0'', ''false''} then n else n + 1)) \<and>
   parse_bool B (PStr [CHR ''s'', CHR 0xED]) n = Inr (PInt 1, n + 1) \<and>
   parse_bool B (PStr ''SI'') n = Inr (PInt 1, n + 1) \<and>
   parse_bool B (PStr ''Yes'') n = Inr (PInt 1, n + 1) \<and>
   parse_bool B (PStr ''1'') n = Inr (PInt 1, n) \<and>
   parse_bool B (PStr ''true'') n = Inr (PInt 1, n)"
proof -
  have T: "py_lower (py_strip t) \<in> {''1'', ''true'', ''t'', ''si'', [CHR ''s'', CHR 0xED], ''y'', ''yes''} \<longrightarrow>
      parse_bool B (PStr t) n =
        Inr (PInt 1, if py_lower (py_strip t) \<in> {''1'', ''true''} then n else n + 1)"
    by (auto simp add: parse_bool_PStr TRUE_TOKENS_def Let_def)
  have F: "py_lower (py_strip t) \<in> {''0'', ''false'', ''f'', ''no'', ''n''} \<longrightarrow>
      parse_bool B (PStr t) n =
        Inr (PInt 0, if py_lower (py_strip t) \<in> {''0'', ''false''} then n else n + 1)"
    by (auto simp add: parse_bool_PStr TRUE_TOKENS_def FALSE_TOKENS_def Let_def)
  have l1: "py_lower (py_strip [CHR ''s'', CHR 0xED]) = [CHR ''s'', CHR 0xED]" by code_simp
  have l2: "py_lower (py_strip ''SI'') = ''si''" by code_simp
  have l3: "py_lower (py_strip ''Yes'') = ''yes''" by code_simp
  have l4: "py_lower (py_strip ''1'') = ''1''" by code_simp
  have l5: "py_lower (py_strip ''true'') = ''true''" by code_simp
  have e1: "parse_bool B (PStr [CHR ''s'', CHR 0xED]) n = Inr (PInt 1, n + 1)"
    by (simp add: parse_bool_PStr l1 TRUE_TOKENS_def)
  have e2: "parse_bool B (PStr ''SI'') n = Inr (PInt 1, n + 1)"
    by (simp add: parse_bool_PStr l2 TRUE_TOKENS_def)
  have e3: "parse_bool B (PStr ''Yes'') n = Inr (PInt 1, n + 1)"
    by (simp add: parse_bool_PStr l3 TRUE_TOKENS_def)
  have e4: "parse_bool B (PStr ''1'') n = Inr (PInt 1, n)"
    by (simp add: parse_bool_PStr l4 TRUE_TOKENS_def)
  have e5: "parse_bool B (PStr ''true'') n = Inr (PInt 1, n)"
    by (simp add: parse_bool_PStr l5 TRUE_TOKENS_def)
  from T F e1 e2 e3 e4 e5 show ?thesis by blast
qed

theorem parse_bool_text_tokens_witness:
  "py_lower (py_strip '' YES '') \<in> {''1'', ''true'', ''t'', ''si'', [CHR ''s'', CHR 0xED], ''y'', ''yes''} \<and>
   parse_bool decimal_builtins (PStr '' YES '') 0 = Inr (PInt 1, 1) \<and>
   py_lower (py_strip ''No'') \<in> {''0'', ''false'', ''f'', ''no'', ''n''} \<and>
   parse_bool decimal_builtins (PStr ''No'') 0 = Inr (PInt 0, 1) \<and>
   parse_bool decimal_builtins (PStr ''FALSE'') 3 = Inr (PInt 0, 3)"
proof -
  have y: "py_lower (py_strip '' YES '') = ''yes''" by code_simp
  have n: "py_lower (py_strip ''No'') = ''no''" by code_simp
  have f: "py_lower (py_strip ''FALSE'') = ''false''" by code_simp
  show ?thesis
    using parse_bool_text_tokens [of "'' YES ''" decimal_builtins 0]
      parse_bool_text_tokens [of "''No''" decimal_builtins 0]
      parse_bool_text_tokens [of "''FALSE''" decimal_builtins 3]
    by (simp add: y n f)
qed

section \<open>The numeric coercer on numbers\<close>

lemma int_bit_length_le: "a < 2 ^ k \<Longrightarrow> int_bit_length a \<le> k"
proof (induction k arbitrary: a)
  case 0
  then show ?case by (simp add: int_bit_length.simps)
next
  case (Suc k)
  from Suc.prems have "a div 2 < 2 ^ k" by simp
  then have "int_bit_length (a div 2) \<le> k" by (rule Suc.IH)
  then show ?case by (subst int_bit_length.simps) simp
qed



lemma round_half_even_zero: "round_half_even a 0 = a"
  by (simp add: round_half_even_def)


lemma float_of_int_exact:
  assumes "\<bar>i\<bar> < 2 ^ 53"
  shows "float_of_int i = Some (Fin (of_int i))"
proof -
  from assms have le: "int_bit_length \<bar>i\<bar> \<le> 53"
    by (rule int_bit_length_le)
  then have n: "nearest_double \<bar>i\<bar> = \<bar>i\<bar>"
    by (simp add: nearest_double_def round_half_even_zero)
  have s: "sgn i * \<bar>i\<bar> = i"
    by (simp add: sgn_mult_abs)
  from le n s show ?thesis
    by (simp add: float_of_int_def)
qed





section \<open>Upper case and trimming\<close>

lemma code_point_char_of: "n < 256 \<Longrightarrow> code_point (char_of n) = n"
  by (simp add: code_point_def)

lemma code_point_less: "code_point c < 256"
  by (simp add: code_point_def)

lemma upper_char_not_Nil: "upper_char c \<noteq> []"
  by (simp add: upper_char_def Let_def)

lemma code_point_S: "code_point (CHR ''S'') = 83"
  by (simp add: code_point_def)

text \<open>
  A character is either left as it is by \<open>upper_char\<close>, or it is a lower-case letter
  and what it becomes is an upper-case letter.
\<close>

lemma upper_char_cases:
  assumes "c' \<in> set (upper_char c)"
  shows "c' = c \<and> upper_char c = [c] \<or>
         (65 \<le> code_point c' \<and> code_point c' \<le> 90 \<or>
          192 \<le> code_point c' \<and> code_point c' \<le> 222) \<and>
         (97 \<le> code_point c \<and> code_point c \<le> 122 \<or>
          223 \<le> code_point c \<and> code_point c \<le> 254)"
proof -
  let ?n = "code_point c"
  have lt: "?n < 256" by (rule code_point_less)
  consider (ss) "?n = 223"
    | (low) "?n \<noteq> 223" "(97 \<le> ?n \<and> ?n \<le> 122) \<or> (224 \<le> ?n \<and> ?n \<le> 254 \<and> ?n \<noteq> 247)"
    | (same) "?n \<noteq> 223" "\<not> ((97 \<le> ?n \<and> ?n \<le> 122) \<or> (224 \<le> ?n \<and> ?n \<le> 254 \<and> ?n \<noteq> 247))"
    by blast
  then show ?thesis
  proof cases
    case ss
    then have u: "upper_char c = ''SS''" by (simp add: upper_char_def)
    with assms have "c' = CHR ''S''" by simp
    then show ?thesis using ss by (simp add: code_point_S)
  next
    case low
    then have u: "upper_char c = [char_of (?n - 32)]" by (simp add: upper_char_def Let_def)
    with assms have c': "c' = char_of (?n - 32)" by simp
    have "code_point c' = ?n - 32" using lt c' by (simp add: code_point_char_of)
    with low show ?thesis by auto
  next
    case same
    then have "upper_char c = [c]" by (auto simp add: upper_char_def Let_def)
    with assms show ?thesis by simp
  qed
qed

lemma upper_char_idem: "c' \<in> set (upper_char c) \<Longrightarrow> upper_char c' = [c']"
  using upper_char_cases [of c' c] by (auto simp: upper_char_def Let_def)

lemma py_upper_append: "py_upper (a @ b) = py_upper a @ py_upper b"
  by (simp add: py_upper_def)

lemma py_upper_fixed: "(\<And>c. c \<in> set s \<Longrightarrow> upper_char c = [c]) \<Longrightarrow> py_upper s = s"
  by (induction s) (simp_all add: py_upper_def)

lemma py_upper_idem: "py_upper (py_upper s) = py_upper s"
proof (induction s)
  case Nil
  show ?case by (simp add: py_upper_def)
next
  case (Cons c s)
  have "py_upper (upper_char c) = upper_char c"
    by (rule py_upper_fixed) (rule upper_char_idem)
  moreover have "py_upper (c # s) = upper_char c @ py_upper s" by (simp add: py_upper_def)
  ultimately show ?case using Cons by (simp add: py_upper_append)
qed

lemma py_upper_Nil_iff: "py_upper s = [] \<longleftrightarrow> s = []"
  by (cases s) (simp_all add: py_upper_def upper_char_not_Nil)

lemma upper_char_space: "c' \<in> set (upper_char c) \<Longrightarrow> is_space c' = is_space c"
  using upper_char_cases [of c' c] by (auto simp: is_space_def Let_def)

lemma upper_char_plain:
  "c' \<in> set (upper_char c) \<Longrightarrow> is_digit c' \<or> c' = CHR ''.'' \<or> c' = CHR '','' \<Longrightarrow> upper_char c = [c]"
  using upper_char_cases [of c' c] by (auto simp: is_digit_def code_point_def)

lemma last_dropWhile: "dropWhile P xs \<noteq> [] \<Longrightarrow> last (dropWhile P xs) = last xs"
  by (metis last_appendR takeWhile_dropWhile_id)

lemma py_strip_trimmed: "trimmed (py_strip t)"
proof (cases "py_strip t = []")
  case True
  then show ?thesis by (simp add: trimmed_def)
next
  case False
  let ?a = "dropWhile is_space t"
  let ?b = "dropWhile is_space (rev ?a)"
  have s: "py_strip t = rev ?b" by (simp add: py_strip_def)
  with False have b: "?b \<noteq> []" by simp
  have a: "?a \<noteq> []"
  proof
    assume "?a = []"
    then have "rev ?a = []" by (simp only: rev.simps)
    then have "?b = []" by (simp only: dropWhile.simps)
    with b show False by simp
  qed
  have "last (py_strip t) = hd ?b" using s b by (simp add: last_rev)
  moreover have "\<not> is_space (hd ?b)" using b by (rule hd_dropWhile)
  moreover have "hd (py_strip t) = last ?b" using s b by (simp add: hd_rev)
  moreover have "last ?b = last (rev ?a)" using b by (rule last_dropWhile)
  moreover have "last (rev ?a) = hd ?a" using a by (simp add: last_rev)
  moreover have "\<not> is_space (hd ?a)" using a by (rule hd_dropWhile)
  ultimately show ?thesis by (simp add: trimmed_def)
qed

lemma py_strip_id: "trimmed s \<Longrightarrow> py_strip s = s"
proof (cases "s = []")
  case True
  then show ?thesis by (simp add: py_strip_def)
next
  case False
  assume "trimmed s"
  with False have h: "\<not> is_space (hd s)" and l: "\<not> is_space (last s)" by (auto simp: trimmed_def)
  from h False have 1: "dropWhile is_space s = s" by (cases s) auto
  from l False have 2: "dropWhile is_space (rev s) = rev s" by (cases "rev s") (auto simp: last_rev hd_rev)
  show ?thesis by (simp add: py_strip_def 1 2)
qed

lemma hd_py_upper: "s \<noteq> [] \<Longrightarrow> hd (py_upper s) \<in> set (upper_char (hd s))"
  by (cases s) (simp_all add: py_upper_def upper_char_not_Nil)

lemma last_py_upper: "s \<noteq> [] \<Longrightarrow> last (py_upper s) \<in> set (upper_char (last s))"
proof -
  assume "s \<noteq> []"
  then have "s = butlast s @ [last s]" by simp
  then have "py_upper s = py_upper (butlast s) @ upper_char (last s)"
    by (metis py_upper_append py_upper_def concat.simps list.simps(8,9) append_Nil2)
  then show ?thesis by (simp add: upper_char_not_Nil)
qed

lemma trimmed_py_upper: "trimmed s \<Longrightarrow> trimmed (py_upper s)"
proof (cases "s = []")
  case True
  then show ?thesis by (simp add: trimmed_def py_upper_def)
next
  case False
  assume "trimmed s"
  with False have h: "\<not> is_space (hd s)" and l: "\<not> is_space (last s)" by (auto simp: trimmed_def)
  from hd_py_upper[OF False] h have "\<not> is_space (hd (py_upper s))" by (simp add: upper_char_space)
  moreover from last_py_upper[OF False] l have "\<not> is_space (last (py_upper s))" by (simp add: upper_char_space)
  ultimately show ?thesis by (simp add: trimmed_def)
qed

lemma fullmatch_plain_chars:
  assumes "fullmatch_plain_number s" "c \<in> set s"
  shows "is_digit c \<or> c = CHR ''.'' \<or> c = CHR '',''"
proof -
  have s: "s = takeWhile is_digit s @ dropWhile is_digit s" by simp
  from assms(2) s have "c \<in> set (takeWhile is_digit s) \<or> c \<in> set (dropWhile is_digit s)"
    by (metis Un_iff set_append)
  then show ?thesis
  proof
    assume "c \<in> set (takeWhile is_digit s)"
    then show ?thesis by (auto dest: set_takeWhileD)
  next
    assume c: "c \<in> set (dropWhile is_digit s)"
    show ?thesis
    proof (cases "dropWhile is_digit s")
      case Nil
      with c show ?thesis by simp
    next
      case (Cons d t)
      with assms(1) have "(d = CHR ''.'' \<or> d = CHR '','') \<and> list_all is_digit t"
        by (simp add: fullmatch_plain_number_def Let_def)
      with c Cons show ?thesis by (auto simp: list_all_iff)
    qed
  qed
qed

lemma py_upper_plain:
  assumes "\<And>c. c \<in> set (py_upper s) \<Longrightarrow> is_digit c \<or> c = CHR ''.'' \<or> c = CHR '',''"
  shows "py_upper s = s"
proof (rule py_upper_fixed)
  fix c assume c: "c \<in> set s"
  obtain c' where c': "c' \<in> set (upper_char c)" using upper_char_not_Nil [of c] by (cases "upper_char c") auto
  with c have "c' \<in> set (py_upper s)" by (auto simp: py_upper_def)
  with assms have "is_digit c' \<or> c' = CHR ''.'' \<or> c' = CHR '',''" by blast
  with c' show "upper_char c = [c]" by (rule upper_char_plain)
qed

lemma fullmatch_py_upper: "fullmatch_plain_number (py_upper s) \<Longrightarrow> fullmatch_plain_number s"
  using py_upper_plain [of s] fullmatch_plain_chars [of "py_upper s"] by metis

section \<open>The unit-name coercer\<close>

lemma normalize_unit_name_PNone: "normalize_unit_name B PNone m = (PNone, m)"
  by (simp add: normalize_unit_name_def pd_isna_def)

lemma normalize_unit_name_PStr:
  "normalize_unit_name B (PStr t) n =
     (let s = py_strip t in
      if s = [] then (PNone, n)
      else if fullmatch_plain_number s then (PNone, n + 1)
      else
        let key = remove_char (CHR '' '') (remove_char (CHR ''.'') (py_upper s));
            canon = (case map_of UNIT_NORMALIZATION key of Some v \<Rightarrow> v | None \<Rightarrow> py_upper s)
        in (PStr canon, if canon \<noteq> s then n + 1 else n))"
  by (simp add: normalize_unit_name_def pd_isna_def py_str_def Let_def)

lemma normalize_unit_name_result:
  "normalize_unit_name B x n = (y, n') \<Longrightarrow>
     y = PNone \<or>
     (\<exists>v. y = PStr v \<and> v \<in> snd ` set UNIT_NORMALIZATION) \<or>
     (\<exists>s. y = PStr (py_upper s) \<and> s \<noteq> [] \<and> trimmed s \<and> \<not> fullmatch_plain_number s \<and>
          map_of UNIT_NORMALIZATION (remove_char (CHR '' '') (remove_char (CHR ''.'') (py_upper s))) = None)"
proof -
  assume a: "normalize_unit_name B x n = (y, n')"
  let ?s = "py_strip (py_str B x)"
  let ?key = "remove_char (CHR '' '') (remove_char (CHR ''.'') (py_upper ?s))"
  show ?thesis
  proof (cases "pd_isna x \<or> ?s = [] \<or> fullmatch_plain_number ?s")
    case True
    with a have "y = PNone" by (auto simp: normalize_unit_name_def Let_def split: if_splits)
    then show ?thesis by simp
  next
    case False
    show ?thesis
    proof (cases "map_of UNIT_NORMALIZATION ?key")
      case None
      with a False have "y = PStr (py_upper ?s)"
        by (auto simp: normalize_unit_name_def Let_def split: if_splits)
      with None False py_strip_trimmed [of "py_str B x"] show ?thesis by blast
    next
      case (Some v)
      with a False have "y = PStr v"
        by (auto simp: normalize_unit_name_def Let_def split: if_splits)
      moreover from Some have "v \<in> snd ` set UNIT_NORMALIZATION"
        by (metis map_of_SomeD image_eqI snd_conv)
      ultimately show ?thesis by blast
    qed
  qed
qed

lemma canonical_names: "snd ` set UNIT_NORMALIZATION = {''PIEZA'', ''KG'', ''L'', ''M'', ''CAJA'', ''PAQUETE''}"
  by (auto simp: UNIT_NORMALIZATION_def)

lemma normalize_canonical:
  "v \<in> snd ` set UNIT_NORMALIZATION \<Longrightarrow> normalize_unit_name B (PStr v) m = (PStr v, m)"
proof -
  have 1: "normalize_unit_name B (PStr ''PIEZA'') m = (PStr ''PIEZA'', m)" by code_simp
  have 2: "normalize_unit_name B (PStr ''KG'') m = (PStr ''KG'', m)" by code_simp
  have 3: "normalize_unit_name B (PStr ''L'') m = (PStr ''L'', m)" by code_simp
  have 4: "normalize_unit_name B (PStr ''M'') m = (PStr ''M'', m)" by code_simp
  have 5: "normalize_unit_name B (PStr ''CAJA'') m = (PStr ''CAJA'', m)" by code_simp
  have 6: "normalize_unit_name B (PStr ''PAQUETE'') m = (PStr ''PAQUETE'', m)" by code_simp
  assume "v \<in> snd ` set UNIT_NORMALIZATION"
  then have "v \<in> {''PIEZA'', ''KG'', ''L'', ''M'', ''CAJA'', ''PAQUETE''}"
    by (simp only: canonical_names)
  with 1 2 3 4 5 6 show ?thesis by auto
qed

lemma normalize_upper:
  assumes "s \<noteq> []" "trimmed s" "\<not> fullmatch_plain_number s"
    "map_of UNIT_NORMALIZATION (remove_char (CHR '' '') (remove_char (CHR ''.'') (py_upper s))) = None"
  shows "normalize_unit_name B (PStr (py_upper s)) m = (PStr (py_upper s), m)"
proof -
  have st: "py_strip (py_upper s) = py_upper s"
    using assms(2) by (simp add: py_strip_id trimmed_py_upper)
  have ne: "py_upper s \<noteq> []" using assms(1) by (simp add: py_upper_Nil_iff)
  have fm: "\<not> fullmatch_plain_number (py_upper s)"
    using assms(3) fullmatch_py_upper by blast
  show ?thesis
    using assms(4) by (simp add: normalize_unit_name_PStr st ne fm py_upper_idem Let_def)
qed

text \<open>
  Claim C7. The unit-name coercer is idempotent: applied to its own result, for any
  input and any counter values, it returns that result unchanged and leaves the counter
  as it was (a null result stays null). "Pzas." becomes "PIEZA" with the counter raised
  by one, and "PIEZA" is returned unchanged with the counter as it was.
\<close>

theorem normalize_unit_name_idempotent:
  "normalize_unit_name B (fst (normalize_unit_name B x n)) m = (fst (normalize_unit_name B x n), m) \<and>
   normalize_unit_name B (PStr ''Pzas.'') n = (PStr ''PIEZA'', n + 1) \<and>
   normalize_unit_name B (PStr ''PIEZA'') n = (PStr ''PIEZA'', n)"
proof -
  obtain y n' where r: "normalize_unit_name B x n = (y, n')" by (cases "normalize_unit_name B x n")
  from normalize_unit_name_result [OF r]
  consider (null) "y = PNone"
    | (canon) v where "y = PStr v" "v \<in> snd ` set UNIT_NORMALIZATION"
    | (upper) s where "y = PStr (py_upper s)" "s \<noteq> []" "trimmed s" "\<not> fullmatch_plain_number s"
        "map_of UNIT_NORMALIZATION (remove_char (CHR '' '') (remove_char (CHR ''.'') (py_upper s))) = None"
    by blast
  then have "normalize_unit_name B y m = (y, m)"
  proof cases
    case null
    then show ?thesis by (simp add: normalize_unit_name_PNone)
  next
    case canon
    then show ?thesis by (simp add: normalize_canonical)
  next
    case upper
    then show ?thesis by (simp add: normalize_upper)
  qed
  with r have idem: "normalize_unit_name B (fst (normalize_unit_name B x n)) m = (fst (normalize_unit_name B x n), m)"
    by simp
  have p1: "normalize_unit_name B (PStr ''Pzas.'') n = (PStr ''PIEZA'', n + 1)" by code_simp
  have p2: "normalize_unit_name B (PStr ''PIEZA'') n = (PStr ''PIEZA'', n)" by code_simp
  from idem p1 p2 show ?thesis by blast
qed

theorem normalize_unit_name_idempotent_witness:
  "normalize_unit_name decimal_builtins (PStr ''Pzas.'') 0 = (PStr ''PIEZA'', 1) \<and>
   normalize_unit_name decimal_builtins (PStr ''PIEZA'') 5 = (PStr ''PIEZA'', 5)"
proof -
  note t = normalize_unit_name_idempotent [of decimal_builtins "PStr ''Pzas.''" 0 5]
  from t have 1: "normalize_unit_name decimal_builtins (PStr ''Pzas.'') 0 = (PStr ''PIEZA'', 0 + 1)"
    by blast
  from t have "normalize_unit_name decimal_builtins
      (fst (normalize_unit_name decimal_builtins (PStr ''Pzas.'') 0)) 5 =
      (fst (normalize_unit_name decimal_builtins (PStr ''Pzas.'') 0), 5)"
    by blast
  with 1 show ?thesis by simp
qed

section \<open>Cells, the echo mask and the coercion loop\<close>

lemma cell_select_columns:
  "cell (select_columns cols r) c = (if c \<in> set cols then cell r c else PFloat NaN)"
proof -
  have "map_of (map (\<lambda>c. (c, cell r c)) cols) c = (if c \<in> set cols then Some (cell r c) else None)"
    by (induction cols) auto
  then show ?thesis by (simp add: select_columns_def cell_def [of "map _ _"])
qed

lemma map_of_set_cell:
  "map_of (set_cell r c v) k = (if k = c then map_option (\<lambda>_. v) (map_of r k) else map_of r k)"
  by (induction r) (auto simp: set_cell_def)

lemma cell_set_cell_other: "k \<noteq> c \<Longrightarrow> cell (set_cell r c v) k = cell r k"
  by (simp add: cell_def map_of_set_cell)

lemma cell_set_cell_same: "map_of r c \<noteq> None \<Longrightarrow> cell (set_cell r c v) c = v"
  by (auto simp add: cell_def map_of_set_cell)

lemma map_of_select_columns: "c \<in> set cols \<Longrightarrow> map_of (select_columns cols r) c \<noteq> None"
  by (induction cols) (auto simp: select_columns_def)

lemma cell_stringify_key:
  "key_col \<in> set cols \<Longrightarrow>
     cell (stringify_key B key_col (select_columns cols r)) c =
       (if c = key_col then PStr (py_strip (py_str B (cell r key_col)))
        else if c \<in> set cols then cell r c else PFloat NaN)"
  by (simp add: stringify_key_def cell_set_cell_other cell_set_cell_same map_of_select_columns
      cell_select_columns)

lemma key_present_stringify_key:
  "key_col \<in> set cols \<Longrightarrow>
     key_present key_col (stringify_key B key_col (select_columns cols r)) =
       (py_strip (py_str B (cell r key_col)) \<noteq> [])"
  by (simp add: key_present_def cell_stringify_key pd_isna_def)

lemma echo_row_stringify_key:
  "key_col \<in> set cols \<Longrightarrow>
     echo_row B cols key_col (stringify_key B key_col (select_columns cols r)) =
       (\<exists>c\<in>set cols. c \<noteq> key_col \<and> py_lower (py_strip (py_str B (cell r c))) = c)"
  by (auto simp add: echo_row_def cell_stringify_key)

lemma map2_or_echo:
  "length m = length rs \<Longrightarrow>
     map2 (\<or>) m (echo_series B c rs) =
       map (\<lambda>(b, r). b \<or> py_lower (py_strip (py_str B (cell r c))) = c) (zip m rs)"
  by (induction m rs rule: list_induct2) (simp_all add: echo_series_def)

lemma foldl_mask:
  "length m = length rs \<Longrightarrow>
     foldl (\<lambda>m c. map2 (\<or>) m (echo_series B c rs)) m cols =
       map (\<lambda>(b, r). b \<or> (\<exists>c\<in>set cols. py_lower (py_strip (py_str B (cell r c))) = c)) (zip m rs)"
proof (induction cols arbitrary: m)
  case Nil
  then show ?case by (induction m rs rule: list_induct2) simp_all
next
  case (Cons c cols)
  let ?m' = "map2 (\<or>) m (echo_series B c rs)"
  have len: "length ?m' = length rs" using Cons.prems by (simp add: echo_series_def)
  have "foldl (\<lambda>m c. map2 (\<or>) m (echo_series B c rs)) m (c # cols) =
        foldl (\<lambda>m c. map2 (\<or>) m (echo_series B c rs)) ?m' cols" by simp
  also have "\<dots> = map (\<lambda>(b, r). b \<or> (\<exists>c\<in>set cols. py_lower (py_strip (py_str B (cell r c))) = c)) (zip ?m' rs)"
    using Cons.IH [OF len] .
  also have "\<dots> = map (\<lambda>(b, r). b \<or> (\<exists>c\<in>set (c # cols). py_lower (py_strip (py_str B (cell r c))) = c)) (zip m rs)"
    using Cons.prems
    by (induction m rs rule: list_induct2) (auto simp add: echo_series_def)
  finally show ?case .
qed

lemma mask_template_eq:
  "mask_template B (filter (\<lambda>c. c \<noteq> key_col) cols) rs = map (echo_row B cols key_col) rs"
proof -
  have "mask_template B (filter (\<lambda>c. c \<noteq> key_col) cols) rs =
      map (\<lambda>(b, r). b \<or> (\<exists>c\<in>set (filter (\<lambda>c. c \<noteq> key_col) cols). py_lower (py_strip (py_str B (cell r c))) = c))
        (zip (replicate (length rs) False) rs)"
    unfolding mask_template_def by (rule foldl_mask) simp
  also have "\<dots> = map (echo_row B cols key_col) rs"
    by (induction rs) (auto simp add: echo_row_def)
  finally show ?thesis .
qed

lemma filter_mask_keep: "map fst (filter (\<lambda>(r, m). \<not> m) (zip rs (map P rs))) = filter (\<lambda>r. \<not> P r) rs"
  by (induction rs) auto

lemma filter_mask_count: "length (filter (\<lambda>m. m) (map P rs)) = length (filter P rs)"
  by (induction rs) auto

lemma row_filter_eq:
  "row_filter B df key_col =
     (filter (\<lambda>r. \<not> echo_row B (keep_columns (columns df)) key_col r) (keyed_rows B df key_col),
      length (filter (echo_row B (keep_columns (columns df)) key_col) (keyed_rows B df key_col)))"
proof -
  let ?rs = "keyed_rows B df key_col"
  let ?E = "echo_row B (keep_columns (columns df)) key_col"
  let ?mask = "mask_template B (filter (\<lambda>c. c \<noteq> key_col) (keep_columns (columns df))) ?rs"
  have mask: "?mask = map ?E ?rs" by (rule mask_template_eq)
  have cnt: "length (filter (\<lambda>m. m) ?mask) = length (filter ?E ?rs)"
    unfolding mask by (rule filter_mask_count)
  have kept: "map fst (filter (\<lambda>(r, m). \<not> m) (zip ?rs ?mask)) = filter (\<lambda>r. \<not> ?E r) ?rs"
    unfolding mask by (rule filter_mask_keep)
  have none: "length (filter ?E ?rs) = 0 \<Longrightarrow> filter (\<lambda>r. \<not> ?E r) ?rs = ?rs"
    by (simp add: filter_empty_conv)
  have "row_filter B df key_col =
      (if length (filter (\<lambda>m. m) ?mask) \<noteq> 0
       then map fst (filter (\<lambda>(r, m). \<not> m) (zip ?rs ?mask)) else ?rs,
       length (filter (\<lambda>m. m) ?mask))"
    by (simp only: row_filter_def Let_def)
  also have "\<dots> = (filter (\<lambda>r. \<not> ?E r) ?rs, length (filter ?E ?rs))"
    unfolding cnt kept using none by (cases "length (filter ?E ?rs) = 0") simp_all
  finally show ?thesis .
qed

lemma apply_series_keeps:
  "apply_series f col rs n = Inr (rs', n') \<Longrightarrow>
     length rs' = length rs \<and> (k \<noteq> col \<longrightarrow> map (\<lambda>r. cell r k) rs' = map (\<lambda>r. cell r k) rs)"
proof (induction rs arbitrary: n rs' n')
  case Nil
  then show ?case by simp
next
  case (Cons r rs)
  from Cons.prems obtain v n1 where f: "f (cell r col) n = Inr (v, n1)"
    by (cases "f (cell r col) n") auto
  from Cons.prems f obtain rs1 n2 where a: "apply_series f col rs n1 = Inr (rs1, n2)"
    by (cases "apply_series f col rs n1") auto
  from Cons.prems f a have "rs' = set_cell r col v # rs1" by simp
  with Cons.IH [OF a] show ?case by (simp add: cell_set_cell_other)
qed

lemma coerce_column_keeps:
  assumes "coerce_column B col typ (rs, rep) = Inr (rs', rep')"
  shows "length rs' = length rs \<and> dropped_rows rep' = dropped_rows rep \<and>
         (k \<noteq> col \<longrightarrow> map (\<lambda>r. cell r k) rs' = map (\<lambda>r. cell r k) rs)"
proof (cases "typ")
  case TStr
  with assms show ?thesis by (auto simp: coerce_column_def cell_set_cell_other)
next
  case TNum
  with assms obtain rs1 n1 where
    a: "apply_series (parse_num B) col rs (num_coerced rep) = Inr (rs1, n1)"
    by (cases "apply_series (parse_num B) col rs (num_coerced rep)")
       (auto simp add: coerce_column_def)
  with assms TNum have "rs' = rs1" "rep' = rep\<lparr>num_coerced := n1\<rparr>" by (simp_all add: coerce_column_def)
  with apply_series_keeps [OF a] show ?thesis by simp
next
  case TBool
  with assms obtain rs1 n1 where
    a: "apply_series (parse_bool B) col rs (bool_coerced rep) = Inr (rs1, n1)"
    by (cases "apply_series (parse_bool B) col rs (bool_coerced rep)")
       (auto simp add: coerce_column_def)
  with assms TBool have "rs' = rs1" "rep' = rep\<lparr>bool_coerced := n1\<rparr>" by (simp_all add: coerce_column_def)
  with apply_series_keeps [OF a] show ?thesis by simp
next
  case TUnit
  with assms obtain rs1 n1 where
    a: "apply_series (\<lambda>x n. Inr (normalize_unit_name B x n)) col rs (unit_normalized rep) =
          Inr (rs1, n1)"
    by (cases "apply_series (\<lambda>x n. Inr (normalize_unit_name B x n)) col rs (unit_normalized rep)")
       (auto simp add: coerce_column_def)
  with assms TUnit have "rs' = rs1" "rep' = rep\<lparr>unit_normalized := n1\<rparr>" by (simp_all add: coerce_column_def)
  with apply_series_keeps [OF a] show ?thesis by simp
qed

lemma coerce_fold_Inl:
  "foldl (\<lambda>res (col, dbcol, typ).
            case res of
              Inl e \<Rightarrow> Inl e
            | Inr st \<Rightarrow> if col \<notin> set cols then Inr st else coerce_column B col typ st)
       (Inl e) xs = Inl e"
  by (induction xs) (simp_all add: case_prod_beta)

lemma coerce_fold_keeps:
  "foldl (\<lambda>res (col, dbcol, typ).
            case res of
              Inl e \<Rightarrow> Inl e
            | Inr st \<Rightarrow> if col \<notin> set cols then Inr st else coerce_column B col typ st)
       (Inr (rs, rep)) xs = Inr (rs', rep') \<Longrightarrow>
     length rs' = length rs \<and> dropped_rows rep' = dropped_rows rep \<and>
     (k \<notin> fst ` set xs \<longrightarrow> map (\<lambda>r. cell r k) rs' = map (\<lambda>r. cell r k) rs)"
proof (induction xs arbitrary: rs rep)
  case Nil
  then show ?case by simp
next
  case (Cons x xs)
  let ?F = "\<lambda>res (col, dbcol, typ).
            case res of
              Inl e \<Rightarrow> Inl e
            | Inr st \<Rightarrow> if col \<notin> set cols then Inr st else coerce_column B col typ st"
  obtain col dbcol ty where x: "x = (col, dbcol, ty)" by (cases x)
  let ?s = "if col \<notin> set cols then Inr (rs, rep) else coerce_column B col ty (rs, rep)"
  from Cons.prems x have step: "foldl ?F ?s xs = Inr (rs', rep')" by simp
  obtain rs1 rep1 where s: "?s = Inr (rs1, rep1)"
  proof (cases ?s)
    case (Inl e)
    with step have "foldl ?F (Inl e) xs = Inr (rs', rep')" by simp
    then show ?thesis by (simp add: coerce_fold_Inl)
  next
    case (Inr st)
    with that show ?thesis by (cases st) simp
  qed
  then have 1: "length rs1 = length rs \<and> dropped_rows rep1 = dropped_rows rep \<and>
         (k \<noteq> col \<longrightarrow> map (\<lambda>r. cell r k) rs1 = map (\<lambda>r. cell r k) rs)"
    using coerce_column_keeps [of B col ty rs rep rs1 rep1 k] by (cases "col \<in> set cols") auto
  from step s have "foldl ?F (Inr (rs1, rep1)) xs = Inr (rs', rep')" by simp
  from Cons.IH [OF this] 1 x show ?case by auto
qed

lemma coerce_all_keeps:
  "coerce_all B cols (rs, rep) = Inr (rs', rep') \<Longrightarrow>
     length rs' = length rs \<and> dropped_rows rep' = dropped_rows rep \<and>
     (k \<notin> fst ` set ALLOWED_MAP \<longrightarrow> map (\<lambda>r. cell r k) rs' = map (\<lambda>r. cell r k) rs)"
  unfolding coerce_all_def by (rule coerce_fold_keeps)

lemma coerce_fold_skip:
  "\<forall>x\<in>set xs. fst x \<notin> set cols \<Longrightarrow>
   foldl (\<lambda>res (col, dbcol, typ).
            case res of
              Inl e \<Rightarrow> Inl e
            | Inr st \<Rightarrow> if col \<notin> set cols then Inr st else coerce_column B col typ st)
       (Inr st) xs = Inr st"
  by (induction xs) (simp_all add: case_prod_beta)

lemma coerce_all_skip:
  "set cols \<inter> fst ` set ALLOWED_MAP = {} \<Longrightarrow> coerce_all B cols st = Inr st"
  unfolding coerce_all_def by (rule coerce_fold_skip) auto

lemma key_not_allowed: "k \<in> {''id'', ''clave''} \<Longrightarrow> k \<notin> fst ` set ALLOWED_MAP"
  by (auto simp: ALLOWED_MAP_def)

lemma clean_autocorrect_Inr:
  assumes "clean_autocorrect B df key_col = Inr (out, rep)"
  shows "key_col \<in> set (keep_columns (columns df)) \<and>
         columns out = keep_columns (columns df) \<and>
         coerce_all B (keep_columns (columns df))
           (fst (row_filter B df key_col),
            \<lparr>dropped_rows = snd (row_filter B df key_col), num_coerced = 0, bool_coerced = 0,
               unit_normalized = 0\<rparr>) = Inr (rows out, rep)"
proof -
  from assms have k: "key_col \<in> set (keep_columns (columns df))"
    by (auto simp: clean_autocorrect_def Let_def split: if_splits)
  obtain rs d where rf: "row_filter B df key_col = (rs, d)" by (cases "row_filter B df key_col")
  let ?c = "coerce_all B (keep_columns (columns df))
       (rs, \<lparr>dropped_rows = d, num_coerced = 0, bool_coerced = 0, unit_normalized = 0\<rparr>)"
  from assms k rf obtain rs' rep' where ca: "?c = Inr (rs', rep')"
    by (cases ?c) (auto simp add: clean_autocorrect_def Let_def)
  from assms k rf ca have "out = \<lparr>columns = keep_columns (columns df), rows = rs'\<rparr>" "rep = rep'"
    by (simp_all add: clean_autocorrect_def Let_def)
  with k rf ca show ?thesis by simp
qed

lemma clean_autocorrect_rows:
  assumes "clean_autocorrect B df key_col = Inr (out, rep)"
  shows "dropped_rows rep = snd (row_filter B df key_col) \<and>
         length (rows out) = length (fst (row_filter B df key_col)) \<and>
         (key_col \<in> {''id'', ''clave''} \<longrightarrow>
            map (\<lambda>r. cell r key_col) (rows out) = map (\<lambda>r. cell r key_col) (fst (row_filter B df key_col)))"
  using clean_autocorrect_Inr [OF assms] coerce_all_keeps [of B "keep_columns (columns df)" "fst (row_filter B df key_col)" _ "rows out" rep key_col]
    key_not_allowed [of key_col]
  by auto

lemma clean_autocorrect_no_columns:
  assumes "key_col \<in> set (keep_columns (columns df))"
    "set (keep_columns (columns df)) \<inter> fst ` set ALLOWED_MAP = {}"
  shows "\<exists>out rep. clean_autocorrect B df key_col = Inr (out, rep)"
  using assms coerce_all_skip [of "keep_columns (columns df)" B]
  by (simp add: clean_autocorrect_def Let_def split: prod.splits)

lemma fits_double_cell: "\<forall>v \<in> set (map snd r). fits_double v \<Longrightarrow> fits_double (cell r c)"
proof (cases "map_of r c")
  case None
  then show ?thesis by (simp add: cell_def fits_double_def)
next
  case (Some v)
  assume a: "\<forall>v \<in> set (map snd r). fits_double v"
  from Some have "(c, v) \<in> set r" by (rule map_of_SomeD)
  then have "v \<in> set (map snd r)" by force
  with a have "fits_double v" by blast
  with Some show ?thesis by (simp add: cell_def)
qed

lemma parse_num_returns: "fits_double x \<Longrightarrow> \<exists>v n'. parse_num B x n = Inr (v, n')"
  by (cases x)
     (auto simp add: parse_num_def Let_def fits_double_def float_of_num_def is_number_def
        pd_isna_def split: option.splits)

lemma parse_bool_returns: "fits_double x \<Longrightarrow> \<exists>v n'. parse_bool B x n = Inr (v, n')"
  by (cases x)
     (auto simp add: parse_bool_def Let_def fits_double_def float_of_num_def is_number_def
        pd_isna_def split: option.splits)

lemma apply_series_returns:
  assumes "\<forall>r \<in> set rs. \<forall>n. \<exists>v n'. f (cell r col) n = Inr (v, n')"
  shows "\<exists>rs' n'. apply_series f col rs n = Inr (rs', n')"
  using assms
proof (induction rs arbitrary: n)
  case Nil
  show ?case by simp
next
  case (Cons r rs)
  from Cons.prems have "\<exists>v n'. f (cell r col) n = Inr (v, n')" by simp
  then obtain v n1 where f: "f (cell r col) n = Inr (v, n1)" by (elim exE)
  from Cons.prems have "\<forall>r \<in> set rs. \<forall>n. \<exists>v n'. f (cell r col) n = Inr (v, n')" by simp
  from Cons.IH [OF this, of n1] obtain rs1 n2 where "apply_series f col rs n1 = Inr (rs1, n2)"
    by (elim exE)
  with f show ?case by simp
qed

lemma coerce_column_returns:
  assumes "\<forall>r \<in> set rs. fits_double (cell r col)"
  shows "\<exists>rs' rep'. coerce_column B col ty (rs, rep) = Inr (rs', rep')"
proof (cases ty)
  case TStr
  then show ?thesis by (simp add: coerce_column_def)
next
  case TNum
  from assms have "\<forall>r \<in> set rs. \<forall>n. \<exists>v n'. parse_num B (cell r col) n = Inr (v, n')"
    by (simp add: parse_num_returns)
  from apply_series_returns [OF this, of "num_coerced rep"] obtain rs1 n1 where
    "apply_series (parse_num B) col rs (num_coerced rep) = Inr (rs1, n1)" by (elim exE)
  with TNum show ?thesis by (simp add: coerce_column_def)
next
  case TBool
  from assms have "\<forall>r \<in> set rs. \<forall>n. \<exists>v n'. parse_bool B (cell r col) n = Inr (v, n')"
    by (simp add: parse_bool_returns)
  from apply_series_returns [OF this, of "bool_coerced rep"] obtain rs1 n1 where
    "apply_series (parse_bool B) col rs (bool_coerced rep) = Inr (rs1, n1)" by (elim exE)
  with TBool show ?thesis by (simp add: coerce_column_def)
next
  case TUnit
  have "\<forall>r \<in> set rs. \<forall>n. \<exists>v n'.
      (\<lambda>x n. Inr (normalize_unit_name B x n)) (cell r col) n = (Inr (v, n') :: error + pyval \<times> nat)"
    by (simp add: prod_eq_iff)
  from apply_series_returns [OF this, of "unit_normalized rep"] obtain rs1 n1 where
    "apply_series (\<lambda>x n. Inr (normalize_unit_name B x n)) col rs (unit_normalized rep) =
       Inr (rs1, n1)" by (elim exE)
  with TUnit show ?thesis by (simp add: coerce_column_def)
qed

lemma coerce_fold_returns:
  assumes "distinct (map fst xs)"
    and "\<forall>r \<in> set rs. \<forall>c \<in> fst ` set xs. fits_double (cell r c)"
  shows "\<exists>rs' rep'.
     foldl (\<lambda>res (col, dbcol, typ).
            case res of
              Inl e \<Rightarrow> Inl e
            | Inr st \<Rightarrow> if col \<notin> set cols then Inr st else coerce_column B col typ st)
       (Inr (rs, rep)) xs = Inr (rs', rep')"
  using assms
proof (induction xs arbitrary: rs rep)
  case Nil
  show ?case by simp
next
  case (Cons x xs)
  obtain col dbcol ty where x: "x = (col, dbcol, ty)" by (cases x)
  let ?s = "if col \<notin> set cols then Inr (rs, rep) else coerce_column B col ty (rs, rep)"
  from Cons.prems(2) x have "\<forall>r \<in> set rs. fits_double (cell r col)" by simp
  from coerce_column_returns [OF this, of B ty rep]
  obtain rs1 rep1 where s: "?s = Inr (rs1, rep1)"
    by (cases "col \<in> set cols") auto
  have same: "map (\<lambda>r. cell r k) rs1 = map (\<lambda>r. cell r k) rs" if "k \<noteq> col" for k
    using s that coerce_column_keeps [of B col ty rs rep rs1 rep1 k]
    by (cases "col \<in> set cols") auto
  have ok: "\<forall>r \<in> set rs1. \<forall>c \<in> fst ` set xs. fits_double (cell r c)"
  proof (intro ballI)
    fix r c
    assume r: "r \<in> set rs1" and c: "c \<in> fst ` set xs"
    from c Cons.prems(1) x have ne: "c \<noteq> col" by auto
    from r have "cell r c \<in> set (map (\<lambda>r. cell r c) rs1)" by simp
    with same [OF ne] have "cell r c \<in> set (map (\<lambda>r. cell r c) rs)" by simp
    then obtain r0 where r0: "r0 \<in> set rs" and eq: "cell r c = cell r0 c" by auto
    from c have "c \<in> fst ` set (x # xs)" by simp
    with Cons.prems(2) r0 have "fits_double (cell r0 c)" by blast
    with eq show "fits_double (cell r c)" by simp
  qed
  from Cons.prems(1) have "distinct (map fst xs)" by simp
  from Cons.IH [OF this ok, of rep1] s x show ?case by simp
qed

lemma registry_distinct: "distinct (map fst ALLOWED_MAP)"
  by code_simp

lemma clean_autocorrect_returns:
  assumes "key_col \<in> set (keep_columns (columns df))"
    and "\<forall>r \<in> set (rows df). \<forall>c. fits_double (cell r c)"
  shows "\<exists>out rep. clean_autocorrect B df key_col = Inr (out, rep)"
proof -
  let ?K = "keep_columns (columns df)"
  obtain rs d where rf: "row_filter B df key_col = (rs, d)" by (cases "row_filter B df key_col")
  have ok: "\<forall>p \<in> set rs. \<forall>c \<in> fst ` set ALLOWED_MAP. fits_double (cell p c)"
  proof (intro ballI)
    fix p c
    assume "p \<in> set rs"
    moreover from rf have
      "rs = filter (\<lambda>r. \<not> echo_row B ?K key_col r) (keyed_rows B df key_col)"
      by (simp add: row_filter_eq)
    ultimately have "p \<in> set (keyed_rows B df key_col)" by simp
    then obtain r where r: "r \<in> set (rows df)" and p: "p = stringify_key B key_col (select_columns ?K r)"
      by (auto simp add: keyed_rows_def)
    from r assms(2) have "fits_double (cell r c)" by simp
    then show "fits_double (cell p c)"
      unfolding p by (simp add: cell_stringify_key [OF assms(1)] fits_double_def)
  qed
  from coerce_fold_returns [OF registry_distinct ok]
  obtain rs' rep' where "coerce_all B ?K
      (rs, \<lparr>dropped_rows = d, num_coerced = 0, bool_coerced = 0, unit_normalized = 0\<rparr>) = Inr (rs', rep')"
    unfolding coerce_all_def by blast
  with assms(1) rf show ?thesis by (simp add: clean_autocorrect_def Let_def)
qed

lemma parse_num_Inl: "parse_num B x n = Inl e \<Longrightarrow> e = OverflowError"
  by (cases x)
     (auto simp add: parse_num_def Let_def float_of_num_def is_number_def pd_isna_def
        split: option.splits if_splits)

lemma parse_bool_Inl: "parse_bool B x n = Inl e \<Longrightarrow> e = OverflowError"
  by (cases x)
     (auto simp add: parse_bool_def Let_def float_of_num_def is_number_def pd_isna_def
        split: option.splits if_splits)

lemma apply_series_Inl:
  assumes "\<And>x n e. f x n = Inl e \<Longrightarrow> e = OverflowError"
  shows "apply_series f col rs n = Inl e \<Longrightarrow> e = OverflowError"
proof (induction rs arbitrary: n)
  case Nil
  then show ?case by simp
next
  case (Cons r rs)
  show ?case
  proof (cases "f (cell r col) n")
    case (Inl e')
    with Cons.prems have "e' = e" by simp
    with Inl assms show ?thesis by blast
  next
    case (Inr vn)
    obtain v n1 where vn: "vn = (v, n1)" by (cases vn)
    show ?thesis
    proof (cases "apply_series f col rs n1")
      case (Inl e')
      with Cons.prems Inr vn have "e' = e" by simp
      with Inl Cons.IH show ?thesis by blast
    next
      case (Inr b)
      with Cons.prems \<open>f (cell r col) n = Inr vn\<close> vn show ?thesis
        by (cases b) simp
    qed
  qed
qed

lemma coerce_column_Inl:
  assumes "coerce_column B col ty (rs, rep) = Inl e"
  shows "e = OverflowError"
proof (cases ty)
  case TStr
  with assms show ?thesis by (simp add: coerce_column_def)
next
  case TNum
  with assms have "apply_series (parse_num B) col rs (num_coerced rep) = Inl e"
    by (cases "apply_series (parse_num B) col rs (num_coerced rep)")
       (auto simp add: coerce_column_def)
  then show ?thesis by (rule apply_series_Inl [rotated]) (rule parse_num_Inl)
next
  case TBool
  with assms have "apply_series (parse_bool B) col rs (bool_coerced rep) = Inl e"
    by (cases "apply_series (parse_bool B) col rs (bool_coerced rep)")
       (auto simp add: coerce_column_def)
  then show ?thesis by (rule apply_series_Inl [rotated]) (rule parse_bool_Inl)
next
  case TUnit
  with assms have
    "apply_series (\<lambda>x n. Inr (normalize_unit_name B x n)) col rs (unit_normalized rep) = Inl e"
    by (cases "apply_series (\<lambda>x n. Inr (normalize_unit_name B x n)) col rs (unit_normalized rep)")
       (auto simp add: coerce_column_def)
  then show ?thesis by (rule apply_series_Inl [rotated]) simp
qed

lemma coerce_fold_raises:
  "foldl (\<lambda>res (col, dbcol, typ).
            case res of
              Inl e \<Rightarrow> Inl e
            | Inr st \<Rightarrow> if col \<notin> set cols then Inr st else coerce_column B col typ st)
       (Inr (rs, rep)) xs = Inl e \<Longrightarrow> e = OverflowError"
proof (induction xs arbitrary: rs rep)
  case Nil
  then show ?case by simp
next
  case (Cons x xs)
  let ?F = "\<lambda>res (col, dbcol, typ).
            case res of
              Inl e \<Rightarrow> Inl e
            | Inr st \<Rightarrow> if col \<notin> set cols then Inr st else coerce_column B col typ st"
  obtain col dbcol ty where x: "x = (col, dbcol, ty)" by (cases x)
  let ?s = "if col \<notin> set cols then Inr (rs, rep) else coerce_column B col ty (rs, rep)"
  from Cons.prems x have step: "foldl ?F ?s xs = Inl e" by simp
  show ?case
  proof (cases ?s)
    case (Inl e')
    with step have "e' = e" by (simp add: coerce_fold_Inl)
    with Inl have "coerce_column B col ty (rs, rep) = Inl e"
      by (cases "col \<in> set cols") simp_all
    then show ?thesis by (rule coerce_column_Inl)
  next
    case (Inr st)
    obtain rs1 rep1 where st: "st = (rs1, rep1)" by (cases st)
    from step Inr st have "foldl ?F (Inr (rs1, rep1)) xs = Inl e" by simp
    then show ?thesis by (rule Cons.IH)
  qed
qed

lemma clean_autocorrect_Inl:
  assumes "key_col \<in> set (keep_columns (columns df))"
    and "clean_autocorrect B df key_col = Inl e"
  shows "e = OverflowError"
proof -
  obtain rs d where rf: "row_filter B df key_col = (rs, d)" by (cases "row_filter B df key_col")
  let ?c = "coerce_all B (keep_columns (columns df))
       (rs, \<lparr>dropped_rows = d, num_coerced = 0, bool_coerced = 0, unit_normalized = 0\<rparr>)"
  from assms rf have "?c = Inl e"
    by (cases ?c) (auto simp add: clean_autocorrect_def Let_def)
  then show ?thesis
    unfolding coerce_all_def by (rule coerce_fold_raises)
qed

lemma normalize_columns_fits:
  assumes "frame_fits_double df"
  shows "\<forall>r \<in> set (rows (normalize_columns df)). \<forall>c. fits_double (cell r c)"
proof (intro ballI allI)
  fix r' c
  let ?nm = "\<lambda>c. py_lower (py_strip c)"
  let ?cols = "rev (remdups (rev (map ?nm (columns df))))"
  assume "r' \<in> set (rows (normalize_columns df))"
  then obtain r where r: "r \<in> set (rows df)"
    and r': "r' = select_columns ?cols (map (\<lambda>(k, v). (?nm k, v)) r)"
    by (auto simp add: normalize_columns_def Let_def)
  have "set (map snd (map (\<lambda>(k, v). (?nm k, v)) r)) = set (map snd r)"
    by (induction r) auto
  with assms r have "\<forall>v \<in> set (map snd (map (\<lambda>(k, v). (?nm k, v)) r)). fits_double v"
    by (simp add: frame_fits_double_def)
  then have "fits_double (cell (map (\<lambda>(k, v). (?nm k, v)) r) c)"
    by (rule fits_double_cell)
  then show "fits_double (cell r' c)"
    unfolding r' by (simp add: cell_select_columns fits_double_def)
qed

lemma frame_fits_cells:
  "frame_fits_double df \<Longrightarrow> \<forall>r \<in> set (rows df). \<forall>c. fits_double (cell r c)"
  by (simp add: frame_fits_double_def fits_double_cell)

lemma keep_columns_recognized: "keep_columns cols = filter recognized cols"
  unfolding keep_columns_def
  by (rule filter_cong [OF refl]) (simp add: recognized_def ALLOWED_MAP_def)

lemma keyed_rows_blank:
  assumes "key_col \<in> set (keep_columns (columns df))"
    "py_strip (py_str B (cell r key_col)) = []"
  shows "stringify_key B key_col (select_columns (keep_columns (columns df)) r)
           \<notin> set (keyed_rows B df key_col)"
  using assms by (simp add: keyed_rows_def key_present_stringify_key)

lemma row_filter_rows:
  assumes "key_col \<in> set (keep_columns (columns df))"
  shows "row_filter B df key_col =
     (map (\<lambda>r. stringify_key B key_col (select_columns (keep_columns (columns df)) r))
        (filter (\<lambda>r. py_strip (py_str B (cell r key_col)) \<noteq> [] \<and>
                     \<not> recognized_echo B (columns df) key_col r) (rows df)),
      length (filter (\<lambda>r. py_strip (py_str B (cell r key_col)) \<noteq> [] \<and>
                          recognized_echo B (columns df) key_col r) (rows df)))"
proof -
  let ?K = "keep_columns (columns df)"
  let ?prep = "\<lambda>r. stringify_key B key_col (select_columns ?K r)"
  have kp: "key_present key_col (?prep r) = (py_strip (py_str B (cell r key_col)) \<noteq> [])" for r
    using assms by (rule key_present_stringify_key)
  have ec: "echo_row B ?K key_col (?prep r) = recognized_echo B (columns df) key_col r" for r
    unfolding echo_row_stringify_key [OF assms] recognized_echo_def
    by (auto simp add: keep_columns_recognized)
  have 1: "filter (\<lambda>p. \<not> echo_row B ?K key_col p) (keyed_rows B df key_col) =
      map ?prep (filter (\<lambda>r. py_strip (py_str B (cell r key_col)) \<noteq> [] \<and>
                     \<not> recognized_echo B (columns df) key_col r) (rows df))"
    by (simp add: keyed_rows_def filter_map comp_def kp ec conj_commute)
  have "filter (echo_row B ?K key_col) (keyed_rows B df key_col) =
      map ?prep (filter (\<lambda>r. py_strip (py_str B (cell r key_col)) \<noteq> [] \<and>
                     recognized_echo B (columns df) key_col r) (rows df))"
    by (simp add: keyed_rows_def filter_map comp_def kp ec conj_commute)
  then have 2: "length (filter (echo_row B ?K key_col) (keyed_rows B df key_col)) =
      length (filter (\<lambda>r. py_strip (py_str B (cell r key_col)) \<noteq> [] \<and>
                     recognized_echo B (columns df) key_col r) (rows df))"
    by simp
  show ?thesis
    unfolding row_filter_eq 1 2 ..
qed

lemma keyed_rows_member:
  assumes "r \<in> set (rows df)" "key_col \<in> set (keep_columns (columns df))"
    "py_strip (py_str B (cell r key_col)) \<noteq> []"
  shows "stringify_key B key_col (select_columns (keep_columns (columns df)) r) \<in> set (keyed_rows B df key_col)"
  using assms by (simp add: keyed_rows_def key_present_stringify_key)



lemma ex_clean:
  "clean_autocorrect decimal_builtins ex_df ''id'' =
     Inr (\<lparr>columns = [''id'', ''descripcion'', ''existencia''],
           rows = [[(''id'', PStr ''1''), (''descripcion'', PStr ''Pan''),
                    (''existencia'', PFloat (Fin (21 / 2)))],
                   [(''id'', PStr ''nan''), (''descripcion'', PStr ''existencia''),
                    (''existencia'', PFloat (Fin 3))]]\<rparr>,
          \<lparr>dropped_rows = 1, num_coerced = 0, bool_coerced = 0, unit_normalized = 0\<rparr>)"
  by code_simp


section \<open>Echo rows\<close>

text \<open>
  A row whose key is a blank and whose description reads as the name of its column: the
  row is removed by the filter on empty keys before the echo-row test runs, so it is
  dropped and the report counts no dropped row.
\<close>

theorem echo_row_blank_key_counterexample:
  "rows blank_echo_df = [blank_echo_row] \<and>
   py_lower (py_strip (py_str decimal_builtins (cell blank_echo_row ''descripcion''))) =
     ''descripcion'' \<and>
   clean_autocorrect decimal_builtins blank_echo_df ''id'' =
     Inr (\<lparr>columns = [''id'', ''descripcion''], rows = []\<rparr>,
          \<lparr>dropped_rows = 0, num_coerced = 0, bool_coerced = 0, unit_normalized = 0\<rparr>) \<and>
   upload_batch decimal_builtins ex_server blank_echo_df =
     Some (sql_upd [''descripcion''] ''id'', [])"
proof -
  have 1: "rows blank_echo_df = [blank_echo_row]"
    by (simp add: blank_echo_df_def)
  have 2: "py_lower (py_strip (py_str decimal_builtins (cell blank_echo_row ''descripcion''))) =
     ''descripcion''"
    by code_simp
  have 3: "clean_autocorrect decimal_builtins blank_echo_df ''id'' =
     Inr (\<lparr>columns = [''id'', ''descripcion''], rows = []\<rparr>,
          \<lparr>dropped_rows = 0, num_coerced = 0, bool_coerced = 0, unit_normalized = 0\<rparr>)"
    by code_simp
  have 4: "upload_batch decimal_builtins ex_server blank_echo_df =
     Some (sql_upd [''descripcion''] ''id'', [])"
    by code_simp
  from 1 2 3 4 show ?thesis by (intro conjI)
qed

text \<open>
  Claim C6, as the code has it. The echo-row test runs on the frame as it stands at that
  point: the kept columns, and the rows whose key is not empty after trimming; a row
  whose key is empty after trimming does not reach the test. A row that reaches it is
  dropped exactly when some cell outside the key column has, trimmed and lower-cased,
  the name of its own column as its text; a row with no such cell is kept, whatever
  other column its texts may name. The report's \<open>dropped_rows\<close> is the number of the
  rows dropped so, the cleaned frame has one row for each row kept, and for the key
  columns \<open>id\<close> and \<open>clave\<close> these rows carry the keys of the kept rows in order.
\<close>

theorem echo_rows_dropped_and_counted:
  assumes "clean_autocorrect B df key_col = Inr (out, rep)"
  shows "fst (row_filter B df key_col) =
           filter (\<lambda>r. \<not> echo_row B (keep_columns (columns df)) key_col r) (keyed_rows B df key_col) \<and>
         dropped_rows rep =
           length (filter (echo_row B (keep_columns (columns df)) key_col) (keyed_rows B df key_col)) \<and>
         length (rows out) = length (fst (row_filter B df key_col)) \<and>
         (key_col \<in> {''id'', ''clave''} \<longrightarrow>
            map (\<lambda>r. cell r key_col) (rows out) =
            map (\<lambda>r. cell r key_col) (fst (row_filter B df key_col))) \<and>
         (\<forall>r\<in>set (rows df). py_strip (py_str B (cell r key_col)) \<noteq> [] \<longrightarrow>
            (stringify_key B key_col (select_columns (keep_columns (columns df)) r)
               \<in> set (fst (row_filter B df key_col))) =
            (\<not> (\<exists>c\<in>set (keep_columns (columns df)).
                  c \<noteq> key_col \<and> py_lower (py_strip (py_str B (cell r c))) = c))) \<and>
         (\<forall>r\<in>set (rows df). py_strip (py_str B (cell r key_col)) = [] \<longrightarrow>
            stringify_key B key_col (select_columns (keep_columns (columns df)) r)
              \<notin> set (keyed_rows B df key_col))"
proof -
  let ?K = "keep_columns (columns df)"
  from clean_autocorrect_Inr [OF assms] have k: "key_col \<in> set ?K" by simp
  have rows: "(stringify_key B key_col (select_columns ?K r) \<in> set (fst (row_filter B df key_col))) =
            (\<not> (\<exists>c\<in>set ?K. c \<noteq> key_col \<and> py_lower (py_strip (py_str B (cell r c))) = c))"
    if r: "r \<in> set (rows df)" and ne: "py_strip (py_str B (cell r key_col)) \<noteq> []" for r
  proof -
    have "stringify_key B key_col (select_columns ?K r) \<in> set (keyed_rows B df key_col)"
      using r k ne by (rule keyed_rows_member)
    then show ?thesis
      by (simp add: row_filter_eq echo_row_stringify_key [OF k])
  qed
  have blank: "stringify_key B key_col (select_columns ?K r) \<notin> set (keyed_rows B df key_col)"
    if "py_strip (py_str B (cell r key_col)) = []" for r
    using k that by (rule keyed_rows_blank)
  from clean_autocorrect_rows [OF assms] rows blank show ?thesis
    by (simp add: row_filter_eq)
qed

theorem echo_rows_dropped_and_counted_witness:
  "clean_autocorrect decimal_builtins ex_df ''id'' =
     Inr (\<lparr>columns = [''id'', ''descripcion'', ''existencia''],
           rows = [[(''id'', PStr ''1''), (''descripcion'', PStr ''Pan''),
                    (''existencia'', PFloat (Fin (21 / 2)))],
                   [(''id'', PStr ''nan''), (''descripcion'', PStr ''existencia''),
                    (''existencia'', PFloat (Fin 3))]]\<rparr>,
          \<lparr>dropped_rows = 1, num_coerced = 0, bool_coerced = 0, unit_normalized = 0\<rparr>) \<and>
   length (filter (echo_row decimal_builtins (keep_columns (columns ex_df)) ''id'')
             (keyed_rows decimal_builtins ex_df ''id'')) = 1 \<and>
   map (\<lambda>r. cell r ''id'') (fst (row_filter decimal_builtins ex_df ''id'')) =
     [PStr ''1'', PStr ''nan'']"
proof -
  note t = echo_rows_dropped_and_counted [OF ex_clean]
  from t have "dropped_rows \<lparr>dropped_rows = 1, num_coerced = 0, bool_coerced = 0, unit_normalized = 0\<rparr> =
      length (filter (echo_row decimal_builtins (keep_columns (columns ex_df)) ''id'')
             (keyed_rows decimal_builtins ex_df ''id''))"
    by (elim conjE)
  then have "length (filter (echo_row decimal_builtins (keep_columns (columns ex_df)) ''id'')
             (keyed_rows decimal_builtins ex_df ''id'')) = 1"
    by simp
  moreover from t have "''id'' \<in> {''id'', ''clave''} \<longrightarrow>
      map (\<lambda>r. cell r ''id'')
        (rows \<lparr>columns = [''id'', ''descripcion'', ''existencia''],
           rows = [[(''id'', PStr ''1''), (''descripcion'', PStr ''Pan''),
                    (''existencia'', PFloat (Fin (21 / 2)))],
                   [(''id'', PStr ''nan''), (''descripcion'', PStr ''existencia''),
                    (''existencia'', PFloat (Fin 3))]]\<rparr>) =
      map (\<lambda>r. cell r ''id'') (fst (row_filter decimal_builtins ex_df ''id''))"
    by (elim conjE)
  then have "map (\<lambda>r. cell r ''id'') (fst (row_filter decimal_builtins ex_df ''id'')) =
     [PStr ''1'', PStr ''nan'']"
    by (simp add: cell_def)
  ultimately show ?thesis using ex_clean by simp
qed

section \<open>Columns outside the registry\<close>

text \<open>
  A row whose key is a blank, whose one recognized cell outside the key does not read as
  the name of its column, and whose cell in the unrecognized column \<open>notas\<close> reads as
  the name of that column: the row is not kept, the filter on empty keys removes it.
\<close>

theorem unrecognized_column_blank_key_counterexample:
  "rows blank_notes_df = [blank_notes_row] \<and>
   \<not> recognized ''notas'' \<and>
   py_lower (py_strip (py_str decimal_builtins (cell blank_notes_row ''notas''))) = ''notas'' \<and>
   \<not> recognized_echo decimal_builtins (columns blank_notes_df) ''id'' blank_notes_row \<and>
   clean_autocorrect decimal_builtins blank_notes_df ''id'' =
     Inr (\<lparr>columns = [''id'', ''descripcion''], rows = []\<rparr>,
          \<lparr>dropped_rows = 0, num_coerced = 0, bool_coerced = 0, unit_normalized = 0\<rparr>)"
proof -
  have 1: "rows blank_notes_df = [blank_notes_row]"
    by (simp add: blank_notes_df_def)
  have 2: "\<not> recognized ''notas''"
    by (simp add: recognized_def)
  have 3: "py_lower (py_strip (py_str decimal_builtins (cell blank_notes_row ''notas''))) = ''notas''"
    by code_simp
  have 4: "\<not> recognized_echo decimal_builtins (columns blank_notes_df) ''id'' blank_notes_row"
    by code_simp
  have 5: "clean_autocorrect decimal_builtins blank_notes_df ''id'' =
     Inr (\<lparr>columns = [''id'', ''descripcion''], rows = []\<rparr>,
          \<lparr>dropped_rows = 0, num_coerced = 0, bool_coerced = 0, unit_normalized = 0\<rparr>)"
    by code_simp
  from 1 2 3 4 5 show ?thesis by (intro conjI)
qed

text \<open>
  Claim C9, as the code has it. Only the recognized columns of the sheet reach the
  echo-row test: the rows kept are, in order, the rows of the sheet whose key is not
  empty after trimming and which do not echo in a recognized column, each cut down to
  the recognized columns, and the drop count is the number of the rows with such a key
  that do echo in a recognized column. So a row with a key that is not empty after
  trimming, in which no recognized cell outside the key column reads as the name of its
  column, is kept and is not counted, although its cell in an unrecognized column reads
  as the name of that column; that cell is not in the row kept. A sheet of that one row
  is cleaned to one row with a drop count of zero, whenever cleaning returns, and it
  returns when every integer of the sheet has a double.
\<close>

theorem unrecognized_column_not_examined:
  assumes "r \<in> set (rows df)"
    and "key_col \<in> {''id'', ''clave''}"
    and "key_col \<in> set (columns df)"
    and "py_strip (py_str B (cell r key_col)) \<noteq> []"
    and "\<not> recognized_echo B (columns df) key_col r"
    and "u \<in> set (columns df)"
    and "\<not> recognized u"
    and "py_lower (py_strip (py_str B (cell r u))) = u"
  shows "row_filter B df key_col =
           (map (\<lambda>r. stringify_key B key_col (select_columns (filter recognized (columns df)) r))
              (filter (\<lambda>r. py_strip (py_str B (cell r key_col)) \<noteq> [] \<and>
                           \<not> recognized_echo B (columns df) key_col r) (rows df)),
            length (filter (\<lambda>r. py_strip (py_str B (cell r key_col)) \<noteq> [] \<and>
                                recognized_echo B (columns df) key_col r) (rows df))) \<and>
         stringify_key B key_col (select_columns (filter recognized (columns df)) r)
           \<in> set (fst (row_filter B df key_col)) \<and>
         cell (stringify_key B key_col (select_columns (filter recognized (columns df)) r)) u =
           PFloat NaN \<and>
         (rows df = [r] \<longrightarrow>
            row_filter B df key_col =
              ([stringify_key B key_col (select_columns (filter recognized (columns df)) r)], 0) \<and>
            (\<forall>out rep. clean_autocorrect B df key_col = Inr (out, rep) \<longrightarrow>
               dropped_rows rep = 0 \<and> length (rows out) = 1) \<and>
            (frame_fits_double df \<longrightarrow>
               (\<exists>out rep. clean_autocorrect B df key_col = Inr (out, rep))))"
proof -
  let ?K = "filter recognized (columns df)"
  let ?p = "stringify_key B key_col (select_columns ?K r)"
  let ?kept = "filter (\<lambda>r. py_strip (py_str B (cell r key_col)) \<noteq> [] \<and>
                           \<not> recognized_echo B (columns df) key_col r) (rows df)"
  from assms(2) have rk: "recognized key_col"
    by (auto simp add: recognized_def)
  with assms(3) have k: "key_col \<in> set (keep_columns (columns df))"
    by (simp add: keep_columns_recognized)
  note rf = row_filter_rows [OF k, of B, unfolded keep_columns_recognized]
  from assms(1,4,5) have "r \<in> set ?kept"
    by simp
  then have "?p \<in> (\<lambda>r. stringify_key B key_col (select_columns ?K r)) ` set ?kept"
    by (rule imageI)
  then have mem: "?p \<in> set (fst (row_filter B df key_col))"
    unfolding rf by simp
  from assms(7) rk have uk: "u \<noteq> key_col"
    by auto
  from k have k': "key_col \<in> set ?K"
    by (simp add: keep_columns_recognized)
  have gone: "cell ?p u = PFloat NaN"
    using assms(7) uk by (simp add: cell_stringify_key [OF k'])
  have single: "row_filter B df key_col = ([?p], 0) \<and>
            (\<forall>out rep. clean_autocorrect B df key_col = Inr (out, rep) \<longrightarrow>
               dropped_rows rep = 0 \<and> length (rows out) = 1) \<and>
            (frame_fits_double df \<longrightarrow>
               (\<exists>out rep. clean_autocorrect B df key_col = Inr (out, rep)))"
    if one: "rows df = [r]"
  proof -
    have 1: "row_filter B df key_col = ([?p], 0)"
      unfolding rf using one assms(4,5) by simp
    have 2: "dropped_rows rep = 0 \<and> length (rows out) = 1"
      if c: "clean_autocorrect B df key_col = Inr (out, rep)" for out rep
      using clean_autocorrect_rows [OF c] 1 by simp
    have 3: "\<exists>out rep. clean_autocorrect B df key_col = Inr (out, rep)"
      if "frame_fits_double df"
      using k frame_fits_cells [OF that] by (rule clean_autocorrect_returns)
    from 1 2 3 show ?thesis by blast
  qed
  from rf mem gone single show ?thesis
    by (intro conjI impI) simp_all
qed

theorem unrecognized_column_not_examined_witness:
  "notes_row \<in> set (rows notes_df) \<and>
   ''id'' \<in> {''id'', ''clave''} \<and>
   ''id'' \<in> set (columns notes_df) \<and>
   py_strip (py_str decimal_builtins (cell notes_row ''id'')) \<noteq> [] \<and>
   \<not> recognized_echo decimal_builtins (columns notes_df) ''id'' notes_row \<and>
   ''notas'' \<in> set (columns notes_df) \<and>
   \<not> recognized ''notas'' \<and>
   py_lower (py_strip (py_str decimal_builtins (cell notes_row ''notas''))) = ''notas'' \<and>
   rows notes_df = [notes_row] \<and>
   row_filter decimal_builtins notes_df ''id'' =
     ([stringify_key decimal_builtins ''id''
         (select_columns (filter recognized (columns notes_df)) notes_row)], 0) \<and>
   clean_autocorrect decimal_builtins notes_df ''id'' =
     Inr (\<lparr>columns = [''id'', ''descripcion''],
           rows = [[(''id'', PStr ''1''), (''descripcion'', PStr ''Pan'')]]\<rparr>,
          \<lparr>dropped_rows = 0, num_coerced = 0, bool_coerced = 0, unit_normalized = 0\<rparr>)"
proof -
  have 1: "notes_row \<in> set (rows notes_df)" by (simp add: notes_df_def)
  have 2: "''id'' \<in> {''id'', ''clave''}" by simp
  have 3: "''id'' \<in> set (columns notes_df)" by (simp add: notes_df_def)
  have 4: "py_strip (py_str decimal_builtins (cell notes_row ''id'')) \<noteq> []" by code_simp
  have 5: "\<not> recognized_echo decimal_builtins (columns notes_df) ''id'' notes_row" by code_simp
  have 6: "''notas'' \<in> set (columns notes_df)" by (simp add: notes_df_def)
  have 7: "\<not> recognized ''notas''" by (simp add: recognized_def)
  have 8: "py_lower (py_strip (py_str decimal_builtins (cell notes_row ''notas''))) = ''notas''"
    by code_simp
  have 9: "rows notes_df = [notes_row]" by (simp add: notes_df_def)
  from unrecognized_column_not_examined [OF 1 2 3 4 5 6 7 8] 9
  have 10: "row_filter decimal_builtins notes_df ''id'' =
     ([stringify_key decimal_builtins ''id''
         (select_columns (filter recognized (columns notes_df)) notes_row)], 0)"
    by blast
  have 11: "clean_autocorrect decimal_builtins notes_df ''id'' =
     Inr (\<lparr>columns = [''id'', ''descripcion''],
           rows = [[(''id'', PStr ''1''), (''descripcion'', PStr ''Pan'')]]\<rparr>,
          \<lparr>dropped_rows = 0, num_coerced = 0, bool_coerced = 0, unit_normalized = 0\<rparr>)"
    by code_simp
  from 1 2 3 4 5 6 7 8 9 10 11 show ?thesis by (intro conjI)
qed

section \<open>A missing key\<close>



section \<open>The transaction of an upload\<close>

lemma all_applied_Nil [simp]: "all_applied S st [] db = db"
  by (simp add: all_applied_def)

lemma all_applied_Cons [simp]:
  "all_applied S st (ps # recs) db = all_applied S st recs (map (apply_update S st ps) db)"
  by (simp add: all_applied_def)

lemma executemany_prefix:
  "\<exists>k\<le>length recs.
      working (snd (executemany S st recs conn)) = all_applied S st (take k recs) (working conn) \<and>
      (fst (executemany S st recs conn) = None \<longrightarrow> k = length recs)"
proof (induction recs arbitrary: conn)
  case Nil
  show ?case by simp
next
  case (Cons ps recs)
  show ?case
  proof (cases "update_raises S (working conn) ps")
    case True
    then show ?thesis by (intro exI [of _ 0]) simp
  next
    case False
    define c where "c = conn\<lparr>working := map (apply_update S st ps) (working conn)\<rparr>"
    from Cons.IH [of c] obtain k where k: "k \<le> length recs \<and>
      working (snd (executemany S st recs c)) = all_applied S st (take k recs) (working c) \<and>
      (fst (executemany S st recs c) = None \<longrightarrow> k = length recs)" ..
    have e: "executemany S st (ps # recs) conn = executemany S st recs c"
      using False by (simp add: c_def)
    have w: "working c = map (apply_update S st ps) (working conn)"
      by (simp add: c_def)
    have "Suc k \<le> length (ps # recs) \<and>
      working (snd (executemany S st recs c)) = all_applied S st (take (Suc k) (ps # recs)) (working conn) \<and>
      (fst (executemany S st recs c) = None \<longrightarrow> Suc k = length (ps # recs))"
      using k by (simp add: w)
    then show ?thesis
      unfolding e by (rule exI [of _ "Suc k"])
  qed
qed

lemma executemany_committed:
  "committed (snd (executemany S st recs conn)) = committed conn \<and>
   closed (snd (executemany S st recs conn)) = closed conn"
  by (induction recs arbitrary: conn) simp_all

lemma executemany_ok:
  assumes "fst (executemany S st recs conn) = None"
  shows "working (snd (executemany S st recs conn)) = all_applied S st recs (working conn)"
proof -
  from executemany_prefix [of recs S st conn] obtain k where
    k: "k \<le> length recs \<and>
      working (snd (executemany S st recs conn)) = all_applied S st (take k recs) (working conn) \<and>
      (fst (executemany S st recs conn) = None \<longrightarrow> k = length recs)" ..
  with assms have "k = length recs" by simp
  with k show ?thesis by simp
qed

lemma select_key_col_keep:
  "select_key_col cols = Some k \<Longrightarrow> k \<in> set (keep_columns cols) \<and> k \<in> {''id'', ''clave''}"
  by (auto simp: select_key_col_def keep_columns_def split: if_splits)

text \<open>What the inner \<open>try\<close> leaves behind: nothing committed, or the whole batch.\<close>

lemma try_body_result:
  assumes "try_body B S clean_df rep key_col (connect db) = (fl, conn1, evs)"
  shows "(committed conn1 = db \<and> Commit \<notin> set evs \<or>
          committed conn1 = db \<and> commit_raises S \<and> fl \<noteq> Returned) \<or>
         (\<exists>rl stmt recs. lookup_rows S = Some rl \<and> batch_of B rl clean_df key_col = (stmt, recs) \<and>
            set_parts stmt \<noteq> [] \<and> fst (executemany S stmt recs (connect db)) = None \<and>
            \<not> commit_raises S \<and> fl = Returned \<and> \<not> closed conn1 \<and>
            committed conn1 = all_applied S stmt recs db \<and> Commit \<in> set evs)"
proof (cases "lookup_rows S")
  case None
  with assms show ?thesis by (auto simp: try_body_def connect_def)
next
  case (Some rl)
  obtain stmt recs where b: "batch_of B rl clean_df key_col = (stmt, recs)"
    by (cases "batch_of B rl clean_df key_col")
  show ?thesis
  proof (cases "set_parts stmt = []")
    case True
    with assms Some b show ?thesis
      by (auto simp: try_body_def connect_def close_def rollback_def split: if_splits)
  next
    case False
    obtain e conn' where ex: "executemany S stmt recs (connect db) = (e, conn')"
      by (cases "executemany S stmt recs (connect db)")
    have cm: "committed conn' = db" "closed conn' = False"
      using executemany_committed [of S stmt recs "connect db"] ex by (simp_all add: connect_def)
    show ?thesis
    proof (cases e)
      case (Some err)
      with assms \<open>lookup_rows S = Some rl\<close> b False ex cm show ?thesis
        by (auto simp: try_body_def)
    next
      case None
      have w: "working conn' = all_applied S stmt recs db"
        using executemany_ok [of S stmt recs "connect db"] ex None by (simp add: connect_def)
      show ?thesis
      proof (cases "commit_raises S")
        case True
        with assms \<open>lookup_rows S = Some rl\<close> b False ex cm None show ?thesis
          by (auto simp: try_body_def)
      next
        case cr: False
        with assms \<open>lookup_rows S = Some rl\<close> b False ex None
        have "fl = Returned" "conn1 = commit conn'" "Commit \<in> set evs"
          by (auto simp: try_body_def)
        with cm w cr \<open>lookup_rows S = Some rl\<close> b False ex None show ?thesis
          by (auto simp: commit_def)
      qed
    qed
  qed
qed

text \<open>The handlers after the inner \<open>try\<close> commit nothing and issue no statement.\<close>

lemma upload_run:
  assumes "\<not> df_empty df0"
    and "select_key_col (columns (normalize_columns df0)) = Some k"
    and "clean_autocorrect B (normalize_columns df0) k = Inr (clean_df, rep)"
    and "\<not> connect_raises S"
    and "try_body B S clean_df rep k (connect db) = (fl, conn1, evs)"
  shows "\<exists>res tl. upload_excel_to_db B S db df0 = Inr res \<and> final_db res = committed conn1 \<and>
           events res = Connect # evs @ tl \<and>
           set tl \<subseteq> {Rollback, Close, Show_message Error_al_subir} \<and>
           (fl \<noteq> Returned \<longrightarrow> Rollback \<in> set tl)"
proof (cases fl)
  case Returned
  show ?thesis
  proof (cases "closed conn1")
    case True
    with assms Returned show ?thesis
      by (simp add: upload_excel_to_db_def Let_def close_def)
  next
    case False
    with assms Returned show ?thesis
      by (simp add: upload_excel_to_db_def Let_def close_def)
  qed
next
  case (Raised e)
  show ?thesis
  proof (cases "closed conn1")
    case True
    with assms Raised show ?thesis
      by (simp add: upload_excel_to_db_def Let_def close_def rollback_def)
  next
    case False
    with assms Raised show ?thesis
      by (simp add: upload_excel_to_db_def Let_def close_def rollback_def)
  qed
qed

lemma try_body_write_fails:
  assumes "lookup_rows S = Some rl" "batch_of B rl clean_df key_col = (stmt, recs)"
    "set_parts stmt \<noteq> []" "fst (executemany S stmt recs conn) = Some e"
  shows "try_body B S clean_df rep key_col conn =
           (Raised e, snd (executemany S stmt recs conn), [Execute_lookups, Executemany (length recs)])"
proof -
  obtain e' c' where ex: "executemany S stmt recs conn = (e', c')"
    by (cases "executemany S stmt recs conn")
  with assms(4) have "e' = Some e" by simp
  with assms(1-3) ex show ?thesis by (simp add: try_body_def)
qed

lemma upload_not_started:
  "df_empty df \<or> select_key_col (columns (normalize_columns df)) = None \<Longrightarrow>
     upload_batch B S df = None \<and>
     (\<exists>res. upload_excel_to_db B S db df = Inr res \<and> final_db res = db \<and>
        (\<forall>e \<in> set (events res). \<exists>m. e = Show_message m))"
  by (auto simp: upload_batch_def upload_excel_to_db_def Let_def)

lemma upload_connect_fails:
  assumes "\<not> df_empty df" "select_key_col (columns (normalize_columns df)) = Some k"
    "clean_autocorrect B (normalize_columns df) k = Inr (clean_df, rep)" "connect_raises S"
  shows "\<exists>res. upload_excel_to_db B S db df = Inr res \<and> final_db res = db \<and>
           events res = [Connect, Show_message Error_al_subir]"
  using assms by (simp add: upload_excel_to_db_def Let_def)

text \<open>
  An exception of the cleaning step is an \<open>OverflowError\<close>, of an integer with no double;
  it leaves the upload before the connection is made.
\<close>

lemma upload_clean_raises:
  assumes "\<not> df_empty df" "select_key_col (columns (normalize_columns df)) = Some k"
    "clean_autocorrect B (normalize_columns df) k = Inl e"
  shows "upload_excel_to_db B S db df = Inl OverflowError \<and> upload_batch B S df = None \<and>
         \<not> frame_fits_double df"
proof -
  from select_key_col_keep [OF assms(2)] have k: "k \<in> set (keep_columns (columns (normalize_columns df)))"
    by simp
  from clean_autocorrect_Inl [OF k assms(3)] have e: "e = OverflowError" .
  have "\<not> frame_fits_double df"
  proof
    assume "frame_fits_double df"
    then have "\<forall>r \<in> set (rows (normalize_columns df)). \<forall>c. fits_double (cell r c)"
      by (rule normalize_columns_fits)
    with k have "\<exists>out rep. clean_autocorrect B (normalize_columns df) k = Inr (out, rep)"
      by (rule clean_autocorrect_returns)
    with assms(3) show False by auto
  qed
  with assms e show ?thesis
    by (simp add: upload_excel_to_db_def upload_batch_def Let_def)
qed

lemma upload_batch_started:
  assumes "\<not> df_empty df" "select_key_col (columns (normalize_columns df)) = Some k"
    "clean_autocorrect B (normalize_columns df) k = Inr (clean_df, rep)"
  shows "upload_batch B S df =
           (case lookup_rows S of None \<Rightarrow> None | Some rl \<Rightarrow> Some (batch_of B rl clean_df k))"
  using assms by (simp add: upload_batch_def Let_def)

lemma resolve_units_columns: "columns (resolve_units B m df) = columns df"
proof -
  have "columns (foldl (\<lambda>d col.
        if col \<in> set (columns d)
        then d\<lparr>rows := map (\<lambda>r. set_cell r col (to_unit_id B m (cell r col))) (rows d)\<rparr>
        else d) df cs) = columns df" for cs
    by (induction cs arbitrary: df) simp_all
  then show ?thesis by (simp add: resolve_units_def)
qed

lemma update_cols_of_keep:
  "columns clean_df = keep_columns cols \<Longrightarrow>
     update_cols_of (resolve_units B m clean_df) = filter (\<lambda>c. c \<in> set (map fst ALLOWED_MAP)) cols"
proof -
  assume c: "columns clean_df = keep_columns cols"
  have "filter (\<lambda>c. c \<in> set (map fst ALLOWED_MAP)) (keep_columns cols) =
        filter (\<lambda>c. c \<in> set (map fst ALLOWED_MAP)) cols"
    unfolding keep_columns_def filter_filter by (rule filter_cong) auto
  with c show ?thesis by (simp add: update_cols_of_def resolve_units_columns)
qed

lemma clean_autocorrect_columns:
  "clean_autocorrect B df key_col = Inr (out, rep) \<Longrightarrow> columns out = keep_columns (columns df)"
  using clean_autocorrect_Inr [of B df key_col out rep] by simp

lemma batch_of_stmt:
  "columns clean_df = keep_columns cols \<Longrightarrow>
     fst (batch_of B rl clean_df k) =
       sql_upd (filter (\<lambda>c. c \<in> set (map fst ALLOWED_MAP)) cols) k"
  by (simp add: batch_of_def Let_def update_cols_of_keep)

lemma try_body_no_columns:
  assumes "lookup_rows S = Some rl" "set_parts (fst (batch_of B rl clean_df k)) = []"
  shows "try_body B S clean_df rep k (connect db) =
           (Returned, \<lparr>committed = db, working = db, closed = True\<rparr>,
            [Execute_lookups, Show_message Sin_columnas_de_datos, Rollback, Close])"
proof -
  obtain stmt recs where b: "batch_of B rl clean_df k = (stmt, recs)"
    by (cases "batch_of B rl clean_df k")
  with assms show ?thesis
    by (simp add: try_body_def close_def rollback_def connect_def)
qed

lemma dbcols_distinct: "distinct (map dbcol_of (map fst ALLOWED_MAP))"
  by code_simp

lemma dbcols_not_key:
  "''art_id'' \<notin> set (map dbcol_of (map fst ALLOWED_MAP)) \<and>
   ''clave'' \<notin> set (map dbcol_of (map fst ALLOWED_MAP))"
  by code_simp

lemma dbcol_of_inj:
  assumes "c \<in> set (map fst ALLOWED_MAP)" "c' \<in> set (map fst ALLOWED_MAP)" "dbcol_of c = dbcol_of c'"
  shows "c = c'"
proof -
  have "inj_on dbcol_of (set (map fst ALLOWED_MAP))"
    using dbcols_distinct by (simp only: distinct_map)
  with assms show ?thesis by (rule_tac inj_onD)
qed

lemma dbcol_of_not_key:
  assumes "c \<in> set (map fst ALLOWED_MAP)"
  shows "dbcol_of c \<noteq> ''art_id'' \<and> dbcol_of c \<noteq> ''clave''"
proof -
  from assms have "dbcol_of c \<in> set (map dbcol_of (map fst ALLOWED_MAP))"
    by (simp only: set_map) (rule imageI)
  with dbcols_not_key show ?thesis by metis
qed

lemma COALESCE_null [simp]: "COALESCE PNone old = old"
  by (simp add: COALESCE_def)

lemma set_fold_unchanged:
  "(\<And>c'. (d, c') \<in> set parts \<Longrightarrow> param ps c' = PNone) \<Longrightarrow>
     foldl (\<lambda>r (dbcol, c). r(dbcol := COALESCE (param ps c) (r dbcol))) rw parts d = rw d"
proof (induction parts arbitrary: rw)
  case Nil
  show ?case by simp
next
  case (Cons p parts)
  obtain d' c' where p: "p = (d', c')" by (cases p)
  let ?rw = "rw(d' := COALESCE (param ps c') (rw d'))"
  have step: "foldl (\<lambda>r (dbcol, c). r(dbcol := COALESCE (param ps c) (r dbcol))) rw (p # parts) =
              foldl (\<lambda>r (dbcol, c). r(dbcol := COALESCE (param ps c) (r dbcol))) ?rw parts"
    by (simp only: foldl_Cons p case_prod_conv)
  have "foldl (\<lambda>r (dbcol, c). r(dbcol := COALESCE (param ps c) (r dbcol))) ?rw parts d = ?rw d"
    by (rule Cons.IH) (simp add: Cons.prems)
  also have "?rw d = rw d"
    using Cons.prems [of c'] p by simp
  finally show ?case by (simp only: step)
qed

lemma apply_update_unchanged:
  assumes "\<And>c'. (d, c') \<in> set (set_parts st) \<Longrightarrow>
             where_matches S (rw (where_col st)) (param ps (key_param st)) \<Longrightarrow> param ps c' = PNone"
  shows "apply_update S st ps rw d = rw d"
proof (cases "where_matches S (rw (where_col st)) (param ps (key_param st))")
  case True
  with assms have "\<And>c'. (d, c') \<in> set (set_parts st) \<Longrightarrow> param ps c' = PNone" by simp
  then have "foldl (\<lambda>r (dbcol, c). r(dbcol := COALESCE (param ps c) (r dbcol))) rw (set_parts st) d = rw d"
    by (rule set_fold_unchanged)
  with True show ?thesis by (simp add: apply_update_def)
next
  case False
  then show ?thesis by (simp add: apply_update_def)
qed

text \<open>The statement built by \<open>sql_upd\<close> over columns of the registry.\<close>

lemma sql_upd_null_param:
  assumes "set cols \<subseteq> set (map fst ALLOWED_MAP)" "c \<in> set cols"
    "where_matches S (rw (where_col (sql_upd cols k))) (param ps k) \<longrightarrow> param ps c = PNone"
  shows "apply_update S (sql_upd cols k) ps rw (dbcol_of c) = rw (dbcol_of c)"
proof (rule apply_update_unchanged)
  fix c'
  assume m: "(dbcol_of c, c') \<in> set (set_parts (sql_upd cols k))"
    and w: "where_matches S (rw (where_col (sql_upd cols k))) (param ps (key_param (sql_upd cols k)))"
  from m have c': "c' \<in> set cols" and d: "dbcol_of c = dbcol_of c'" by (auto simp: sql_upd_def)
  from assms(1,2) c' have "c \<in> set (map fst ALLOWED_MAP)" "c' \<in> set (map fst ALLOWED_MAP)" by blast+
  from dbcol_of_inj [OF this d] have "c' = c" by simp
  moreover from w have "where_matches S (rw (where_col (sql_upd cols k))) (param ps k)"
    by (simp add: sql_upd_def)
  ultimately show "param ps c' = PNone" using assms(3) by simp
qed

lemma sql_upd_where_col:
  assumes "set cols \<subseteq> set (map fst ALLOWED_MAP)"
  shows "apply_update S (sql_upd cols k) ps rw (where_col (sql_upd cols k)) =
           rw (where_col (sql_upd cols k))"
proof (rule apply_update_unchanged)
  fix c'
  assume m: "(where_col (sql_upd cols k), c') \<in> set (set_parts (sql_upd cols k))"
  from m have c': "c' \<in> set cols" and d: "where_col (sql_upd cols k) = dbcol_of c'"
    by (auto simp: sql_upd_def)
  from assms c' have "c' \<in> set (map fst ALLOWED_MAP)" by blast
  from dbcol_of_not_key [OF this] d have False by (simp add: sql_upd_def split: if_splits)
  then show "param ps c' = PNone" ..
qed

lemma all_applied_length: "length (all_applied S st recs db) = length db"
  by (induction recs arbitrary: db) simp_all

lemma all_applied_preserves:
  assumes "set cols \<subseteq> set (map fst ALLOWED_MAP)" "c \<in> set cols" "i < length db"
    "\<forall>ps\<in>set recs. where_matches S ((db ! i) (where_col (sql_upd cols k))) (param ps k) \<longrightarrow>
        param ps c = PNone"
  shows "(all_applied S (sql_upd cols k) recs db ! i) (dbcol_of c) = (db ! i) (dbcol_of c)"
  using assms(3,4)
proof (induction recs arbitrary: db)
  case Nil
  show ?case by simp
next
  case (Cons ps recs)
  let ?st = "sql_upd cols k"
  let ?db = "map (apply_update S ?st ps) db"
  have i: "i < length ?db" using Cons.prems(1) by simp
  have row: "?db ! i = apply_update S ?st ps (db ! i)" using Cons.prems(1) by simp
  have wc: "(?db ! i) (where_col ?st) = (db ! i) (where_col ?st)"
    unfolding row using assms(1) by (rule sql_upd_where_col)
  have f: "(?db ! i) (dbcol_of c) = (db ! i) (dbcol_of c)"
    unfolding row using assms(1,2) Cons.prems(2) by (intro sql_upd_null_param) simp_all
  have "\<forall>ps\<in>set recs. where_matches S ((?db ! i) (where_col ?st)) (param ps k) \<longrightarrow> param ps c = PNone"
    unfolding wc using Cons.prems(2) by simp
  from Cons.IH [OF i this] f show ?case by simp
qed

lemma upload_batch_stmt:
  assumes "upload_batch B S df = Some (stmt, recs)"
  shows "\<exists>cols k. stmt = sql_upd cols k \<and> set cols \<subseteq> set (map fst ALLOWED_MAP)"
proof -
  from assms obtain k clean_df rep rl where
    cl: "clean_autocorrect B (normalize_columns df) k = Inr (clean_df, rep)" and
    b: "batch_of B rl clean_df k = (stmt, recs)"
    by (auto simp: upload_batch_def Let_def split: if_splits option.splits sum.splits)
  from batch_of_stmt [OF clean_autocorrect_columns [OF cl], of B rl k] b
  have "stmt = sql_upd (filter (\<lambda>c. c \<in> set (map fst ALLOWED_MAP)) (columns (normalize_columns df))) k"
    by simp
  then show ?thesis by (intro exI conjI) auto
qed

lemma upload_final_db:
  assumes "upload_excel_to_db B S db df = Inr res"
  shows "final_db res = db \<or>
      (\<exists>stmt recs. upload_batch B S df = Some (stmt, recs) \<and>
         final_db res = all_applied S stmt recs db)"
proof (cases "df_empty df \<or> select_key_col (columns (normalize_columns df)) = None")
  case True
  from upload_not_started [OF True, of B S db] assms show ?thesis by auto
next
  case False
  then obtain k where ne: "\<not> df_empty df"
    and key: "select_key_col (columns (normalize_columns df)) = Some k"
    by auto
  show ?thesis
  proof (cases "clean_autocorrect B (normalize_columns df) k")
    case (Inl e)
    from upload_clean_raises [OF ne key Inl, of S db] assms show ?thesis by simp
  next
    case (Inr cr)
    obtain clean_df rep where cr: "cr = (clean_df, rep)" by (cases cr)
    with Inr have cl: "clean_autocorrect B (normalize_columns df) k = Inr (clean_df, rep)"
      by simp
    show ?thesis
    proof (cases "connect_raises S")
      case True
      from upload_connect_fails [OF ne key cl True, of db] assms show ?thesis by auto
    next
      case nc: False
      obtain fl conn1 evs where tb: "try_body B S clean_df rep k (connect db) = (fl, conn1, evs)"
        by (cases "try_body B S clean_df rep k (connect db)")
      from upload_run [OF ne key cl nc tb] assms have fd: "final_db res = committed conn1"
        by auto
      show ?thesis
        using try_body_result [OF tb] fd upload_batch_started [OF ne key cl, of S] by auto
    qed
  qed
qed

lemma upload_returns:
  assumes "frame_fits_double df"
  shows "\<exists>res. upload_excel_to_db B S db df = Inr res"
proof (cases "df_empty df \<or> select_key_col (columns (normalize_columns df)) = None")
  case True
  from upload_not_started [OF True, of B S db] show ?thesis by (elim conjE exE) (rule exI)
next
  case False
  then obtain k where ne: "\<not> df_empty df"
    and key: "select_key_col (columns (normalize_columns df)) = Some k"
    by auto
  show ?thesis
  proof (cases "clean_autocorrect B (normalize_columns df) k")
    case (Inl e)
    from upload_clean_raises [OF ne key Inl, of S db] assms show ?thesis by simp
  next
    case (Inr cr)
    obtain clean_df rep where cr: "cr = (clean_df, rep)" by (cases cr)
    with Inr have cl: "clean_autocorrect B (normalize_columns df) k = Inr (clean_df, rep)"
      by simp
    show ?thesis
    proof (cases "connect_raises S")
      case True
      from upload_connect_fails [OF ne key cl True, of db] show ?thesis
        by (elim conjE exE) (rule exI)
    next
      case nc: False
      obtain fl conn1 evs where tb: "try_body B S clean_df rep k (connect db) = (fl, conn1, evs)"
        by (cases "try_body B S clean_df rep k (connect db)")
      from upload_run [OF ne key cl nc tb] show ?thesis
        by (elim conjE exE) (rule exI)
    qed
  qed
qed

section \<open>Atomicity of the bulk write\<close>

text \<open>
  Claim C1. An upload either raises while the sheet is cleaned (an integer of the sheet
  has no double), before any connection is made and with no batch, or it ends with the
  committed table either as it was before (nothing applied) or with every statement of
  the batch applied and committed. If a statement of the bulk write raises, the table is
  as it was before, and the upload has rolled back and has not committed. While the bulk
  write runs, whatever it has written so far is in the open transaction only: the
  committed table stays as it was. The table is that of a transactional storage engine,
  so a rollback restores the last commit.
\<close>

theorem upload_atomic:
  "((upload_excel_to_db B S db df = Inl OverflowError \<and> \<not> frame_fits_double df \<and>
       upload_batch B S df = None) \<or>
    (\<exists>res. upload_excel_to_db B S db df = Inr res \<and>
       (final_db res = db \<or>
        (\<exists>stmt recs. upload_batch B S df = Some (stmt, recs) \<and> set_parts stmt \<noteq> [] \<and>
           fst (executemany S stmt recs (connect db)) = None \<and> \<not> commit_raises S \<and>
           final_db res = all_applied S stmt recs db \<and> Commit \<in> set (events res))) \<and>
       (\<forall>stmt recs. upload_batch B S df = Some (stmt, recs) \<and>
           fst (executemany S stmt recs (connect db)) \<noteq> None \<longrightarrow>
           final_db res = db \<and>
           (\<not> connect_raises S \<and> set_parts stmt \<noteq> [] \<longrightarrow>
              Rollback \<in> set (events res) \<and> Commit \<notin> set (events res))))) \<and>
   (\<forall>stmt recs. committed (snd (executemany S stmt recs (connect db))) = db)"
proof -
  have mid: "\<forall>stmt recs. committed (snd (executemany S stmt recs (connect db))) = db"
    by (simp add: executemany_committed connect_def)
  have main: "(upload_excel_to_db B S db df = Inl OverflowError \<and> \<not> frame_fits_double df \<and>
       upload_batch B S df = None) \<or>
    (\<exists>res. upload_excel_to_db B S db df = Inr res \<and>
       (final_db res = db \<or>
        (\<exists>stmt recs. upload_batch B S df = Some (stmt, recs) \<and> set_parts stmt \<noteq> [] \<and>
           fst (executemany S stmt recs (connect db)) = None \<and> \<not> commit_raises S \<and>
           final_db res = all_applied S stmt recs db \<and> Commit \<in> set (events res))) \<and>
       (\<forall>stmt recs. upload_batch B S df = Some (stmt, recs) \<and>
           fst (executemany S stmt recs (connect db)) \<noteq> None \<longrightarrow>
           final_db res = db \<and>
           (\<not> connect_raises S \<and> set_parts stmt \<noteq> [] \<longrightarrow>
              Rollback \<in> set (events res) \<and> Commit \<notin> set (events res))))"
  proof (cases "df_empty df \<or> select_key_col (columns (normalize_columns df)) = None")
    case True
    from upload_not_started [OF True, of B S db] show ?thesis by auto
  next
    case False
    then obtain k where ne: "\<not> df_empty df" and key: "select_key_col (columns (normalize_columns df)) = Some k"
      by auto
    show ?thesis
    proof (cases "clean_autocorrect B (normalize_columns df) k")
      case (Inl e)
      from upload_clean_raises [OF ne key Inl, of S db] show ?thesis
        by simp
    next
      case (Inr cr)
      obtain clean_df rep where cr: "cr = (clean_df, rep)" by (cases cr)
      with Inr have cl: "clean_autocorrect B (normalize_columns df) k = Inr (clean_df, rep)"
        by simp
      note ub = upload_batch_started [OF ne key cl, of S]
      show ?thesis
      proof (cases "connect_raises S")
        case True
        from upload_connect_fails [OF ne key cl True, of db] True show ?thesis by auto
      next
        case nc: False
        obtain fl conn1 evs where tb: "try_body B S clean_df rep k (connect db) = (fl, conn1, evs)"
          by (cases "try_body B S clean_df rep k (connect db)")
        from upload_run [OF ne key cl nc tb] obtain res tl where
          up: "upload_excel_to_db B S db df = Inr res" and fd: "final_db res = committed conn1" and
          ev: "events res = Connect # evs @ tl" and
          tl: "set tl \<subseteq> {Rollback, Close, Show_message Error_al_subir}" and
          rb: "fl \<noteq> Returned \<longrightarrow> Rollback \<in> set tl"
          by blast
        have part2: "final_db res = db \<or>
          (\<exists>stmt recs. upload_batch B S df = Some (stmt, recs) \<and> set_parts stmt \<noteq> [] \<and>
             fst (executemany S stmt recs (connect db)) = None \<and> \<not> commit_raises S \<and>
             final_db res = all_applied S stmt recs db \<and> Commit \<in> set (events res))"
          using try_body_result [OF tb] fd ev ub by auto
        have part3: "final_db res = db \<and>
             (\<not> connect_raises S \<and> set_parts stmt \<noteq> [] \<longrightarrow>
                Rollback \<in> set (events res) \<and> Commit \<notin> set (events res))"
          if b: "upload_batch B S df = Some (stmt, recs)"
            and f: "fst (executemany S stmt recs (connect db)) \<noteq> None" for stmt recs
        proof -
          from b ub obtain rl where rl: "lookup_rows S = Some rl" and bo: "batch_of B rl clean_df k = (stmt, recs)"
            by (auto split: option.splits)
          from f obtain e where e: "fst (executemany S stmt recs (connect db)) = Some e" by auto
          have db: "final_db res = db"
            using try_body_result [OF tb] fd rl bo e by auto
          have "Rollback \<in> set (events res) \<and> Commit \<notin> set (events res)" if sp: "set_parts stmt \<noteq> []"
          proof -
            from try_body_write_fails [OF rl bo sp e, of rep] tb
            have "fl = Raised e" "evs = [Execute_lookups, Executemany (length recs)]" by simp_all
            with rb ev tl show ?thesis by auto
          qed
          with db show ?thesis by simp
        qed
        from up part2 part3 have "\<exists>res. upload_excel_to_db B S db df = Inr res \<and>
          (final_db res = db \<or>
           (\<exists>stmt recs. upload_batch B S df = Some (stmt, recs) \<and> set_parts stmt \<noteq> [] \<and>
             fst (executemany S stmt recs (connect db)) = None \<and> \<not> commit_raises S \<and>
             final_db res = all_applied S stmt recs db \<and> Commit \<in> set (events res))) \<and>
          (\<forall>stmt recs. upload_batch B S df = Some (stmt, recs) \<and>
             fst (executemany S stmt recs (connect db)) \<noteq> None \<longrightarrow>
             final_db res = db \<and>
             (\<not> connect_raises S \<and> set_parts stmt \<noteq> [] \<longrightarrow>
                Rollback \<in> set (events res) \<and> Commit \<notin> set (events res)))"
          by (intro exI [of _ res] conjI allI impI) blast+
        then show ?thesis by (rule disjI2)
      qed
    qed
  qed
  from main mid show ?thesis by (rule conjI)
qed

theorem upload_atomic_witness:
  "upload_batch decimal_builtins failing_server two_df =
     Some (sql_upd [''existencia''] ''id'',
           [[(''existencia'', PFloat (Fin 7)), (''id'', PStr ''1'')],
            [(''existencia'', PFloat (Fin 9)), (''id'', PStr ''2'')]]) \<and>
   fst (executemany failing_server (sql_upd [''existencia''] ''id'')
           [[(''existencia'', PFloat (Fin 7)), (''id'', PStr ''1'')],
            [(''existencia'', PFloat (Fin 9)), (''id'', PStr ''2'')]] (connect ex_db)) = Some DBError \<and>
   (\<exists>res. upload_excel_to_db decimal_builtins failing_server ex_db two_df = Inr res \<and>
      final_db res = ex_db \<and> Rollback \<in> set (events res) \<and> Commit \<notin> set (events res))"
proof -
  let ?recs = "[[(''existencia'', PFloat (Fin 7)), (''id'', PStr ''1'')],
            [(''existencia'', PFloat (Fin 9)), (''id'', PStr ''2'')]]"
  let ?st = "sql_upd [''existencia''] ''id''"
  have b: "upload_batch decimal_builtins failing_server two_df = Some (?st, ?recs)"
    by code_simp
  have f: "fst (executemany failing_server ?st ?recs (connect ex_db)) = Some DBError"
    by code_simp
  have nc: "\<not> connect_raises failing_server"
    by (simp add: failing_server_def ex_server_def)
  have sp: "set_parts ?st \<noteq> []"
    by (simp add: sql_upd_def)
  from upload_atomic [of decimal_builtins failing_server ex_db two_df] b
  obtain res where r: "upload_excel_to_db decimal_builtins failing_server ex_db two_df = Inr res"
    and a: "\<forall>stmt recs. upload_batch decimal_builtins failing_server two_df = Some (stmt, recs) \<and>
         fst (executemany failing_server stmt recs (connect ex_db)) \<noteq> None \<longrightarrow>
         final_db res = ex_db \<and>
         (\<not> connect_raises failing_server \<and> set_parts stmt \<noteq> [] \<longrightarrow>
            Rollback \<in> set (events res) \<and> Commit \<notin> set (events res))"
    by (elim conjE disjE exE) simp_all
  from a have "upload_batch decimal_builtins failing_server two_df = Some (?st, ?recs) \<and>
         fst (executemany failing_server ?st ?recs (connect ex_db)) \<noteq> None \<longrightarrow>
         final_db res = ex_db \<and>
         (\<not> connect_raises failing_server \<and> set_parts ?st \<noteq> [] \<longrightarrow>
            Rollback \<in> set (events res) \<and> Commit \<notin> set (events res))"
    by (elim allE)
  with b f nc sp have "final_db res = ex_db \<and> Rollback \<in> set (events res) \<and> Commit \<notin> set (events res)"
    by simp
  with r b f show ?thesis by (intro conjI exI [of _ res]) simp_all
qed

section \<open>Preserve on null\<close>

text \<open>
  Two rows of one sheet may carry the same key. The first record has no stock value and
  addresses the row whose stock is 5; the second record sets the stock to 7. After the
  bulk write the stock is 7, not 5.
\<close>

theorem preserve_on_null_counterexample:
  "upload_batch decimal_builtins ex_server dup_df =
     Some (sql_upd [''existencia''] ''id'',
           [[(''existencia'', PNone), (''id'', PStr ''1'')],
            [(''existencia'', PFloat (Fin 7)), (''id'', PStr ''1'')]]) \<and>
   param [(''existencia'', PNone), (''id'', PStr ''1'')] ''existencia'' = PNone \<and>
   where_matches ex_server ((ex_db ! 0) ''art_id'')
      (param [(''existencia'', PNone), (''id'', PStr ''1'')] ''id'') \<and>
   (ex_db ! 0) ''existencia'' = PFloat (Fin 5) \<and>
   (final_db (projr (upload_excel_to_db decimal_builtins ex_server ex_db dup_df)) ! 0) ''existencia'' =
     PFloat (Fin 7)"
proof -
  have 1: "upload_batch decimal_builtins ex_server dup_df =
     Some (sql_upd [''existencia''] ''id'',
           [[(''existencia'', PNone), (''id'', PStr ''1'')],
            [(''existencia'', PFloat (Fin 7)), (''id'', PStr ''1'')]])"
    by code_simp
  have 2: "param [(''existencia'', PNone), (''id'', PStr ''1'')] ''existencia'' = PNone"
    by code_simp
  have 3: "where_matches ex_server ((ex_db ! 0) ''art_id'')
      (param [(''existencia'', PNone), (''id'', PStr ''1'')] ''id'')"
    by code_simp
  have 4: "(ex_db ! 0) ''existencia'' = PFloat (Fin 5)"
    by code_simp
  have 5: "(final_db (projr (upload_excel_to_db decimal_builtins ex_server ex_db dup_df)) ! 0) ''existencia'' =
     PFloat (Fin 7)"
    by code_simp
  from 1 2 3 4 5 show ?thesis by (intro conjI)
qed

text \<open>
  Claim C2, as the code has it. If every record of the batch that addresses a destination
  row has a null value for a field, the field of that row holds after the upload what it
  held before; and the statement run for one record whose value for the field is null
  leaves that field of every row as it was. (A record with a value for the field, in the
  same batch and for the same row, still sets it.)
\<close>

theorem preserve_on_null:
  assumes "upload_excel_to_db B S db df = Inr res"
    and "upload_batch B S df = Some (stmt, recs)"
    and "(d, c) \<in> set (set_parts stmt)"
    and "i < length db"
    and "\<forall>ps\<in>set recs.
           where_matches S ((db ! i) (where_col stmt)) (param ps (key_param stmt)) \<longrightarrow>
           param ps c = PNone"
  shows "(final_db res ! i) d = (db ! i) d \<and>
         (\<forall>ps rw. param ps c = PNone \<longrightarrow> apply_update S stmt ps rw d = rw d)"
proof -
  from upload_batch_stmt [OF assms(2)] obtain cols k where
    st: "stmt = sql_upd cols k" and sub: "set cols \<subseteq> set (map fst ALLOWED_MAP)"
    by (elim exE conjE)
  from assms(3) st have c: "c \<in> set cols" and d: "d = dbcol_of c"
    by (auto simp: sql_upd_def)
  have kp: "key_param stmt = k" using st by (simp add: sql_upd_def)
  have all: "(all_applied S stmt recs db ! i) d = (db ! i) d"
    unfolding st d using sub c assms(4) assms(5) [unfolded st kp [unfolded st]]
    by (rule all_applied_preserves)
  from upload_final_db [OF assms(1)]
  have "final_db res = db \<or>
      (\<exists>stmt' recs'. upload_batch B S df = Some (stmt', recs') \<and>
         final_db res = all_applied S stmt' recs' db)" .
  with assms(2) have "final_db res = db \<or> final_db res = all_applied S stmt recs db"
    by auto
  with all have 1: "(final_db res ! i) d = (db ! i) d" by auto
  have 2: "apply_update S stmt ps rw d = rw d" if "param ps c = PNone" for ps rw
    unfolding st d using sub c by (rule sql_upd_null_param) (simp add: that)
  from 1 2 show ?thesis by simp
qed

theorem preserve_on_null_witness:
  "upload_batch decimal_builtins ex_server null_df =
     Some (sql_upd [''existencia''] ''id'', [[(''existencia'', PNone), (''id'', PStr ''1'')]]) \<and>
   (''existencia'', ''existencia'') \<in> set (set_parts (sql_upd [''existencia''] ''id'')) \<and>
   (0::nat) < length ex_db \<and>
   param [(''existencia'', PNone), (''id'', PStr ''1'')] ''existencia'' = PNone \<and>
   (ex_db ! 0) ''existencia'' = PFloat (Fin 5) \<and>
   (\<exists>res. upload_excel_to_db decimal_builtins ex_server ex_db null_df = Inr res \<and>
      (final_db res ! 0) ''existencia'' = PFloat (Fin 5))"
proof -
  let ?st = "sql_upd [''existencia''] ''id''"
  let ?rec = "[(''existencia'', PNone), (''id'', PStr ''1'')]"
  have b: "upload_batch decimal_builtins ex_server null_df = Some (?st, [?rec])"
    by code_simp
  have m: "(''existencia'', ''existencia'') \<in> set (set_parts ?st)"
    by code_simp
  have l: "(0::nat) < length ex_db"
    by (simp add: ex_db_def)
  have p: "param ?rec ''existencia'' = PNone"
    by code_simp
  have v: "(ex_db ! 0) ''existencia'' = PFloat (Fin 5)"
    by code_simp
  have h: "\<forall>ps\<in>set [?rec].
      where_matches ex_server ((ex_db ! 0) (where_col ?st)) (param ps (key_param ?st)) \<longrightarrow>
      param ps ''existencia'' = PNone"
    using p by simp
  have "frame_fits_double null_df"
    by (simp add: frame_fits_double_def null_df_def fits_double_def float_of_int_exact)
  from upload_returns [OF this, of decimal_builtins ex_server ex_db]
  obtain res where r: "upload_excel_to_db decimal_builtins ex_server ex_db null_df = Inr res"
    by (elim exE)
  from preserve_on_null [OF r b m l h] v
  have "(final_db res ! 0) ''existencia'' = PFloat (Fin 5)" by simp
  with r b m l p v show ?thesis by (intro conjI exI [of _ res]) simp_all
qed

section \<open>No editable fields\<close>

text \<open>
  A sheet with the key column alone: the upload connects and runs the lookup read before
  it finds that no editable column is left.
\<close>

theorem no_database_access_counterexample:
  "\<not> df_empty key_only_df \<and>
   select_key_col (columns (normalize_columns key_only_df)) = Some ''id'' \<and>
   update_cols_of (normalize_columns key_only_df) = [] \<and>
   events (projr (upload_excel_to_db decimal_builtins ex_server ex_db key_only_df)) =
     [Connect, Execute_lookups, Show_message Sin_columnas_de_datos, Rollback, Close, Close,
      Show_message Error_al_subir]"
proof -
  have 1: "\<not> df_empty key_only_df" by code_simp
  have 2: "select_key_col (columns (normalize_columns key_only_df)) = Some ''id''" by code_simp
  have 3: "update_cols_of (normalize_columns key_only_df) = []" by code_simp
  have 4: "events (projr (upload_excel_to_db decimal_builtins ex_server ex_db key_only_df)) =
     [Connect, Execute_lookups, Show_message Sin_columnas_de_datos, Rollback, Close, Close,
      Show_message Error_al_subir]"
    by code_simp
  from 1 2 3 4 show ?thesis by (intro conjI)
qed

text \<open>
  Claim C3, as the code has it. When no updatable column is left after mapping, and the
  connection and the lookup read succeed, the upload runs the lookup read (once), shows
  the message that there are no editable columns, rolls back and closes the connection;
  it runs no write statement and no commit, and the table is as it was before.
\<close>

theorem no_editable_fields_after_lookup:
  assumes "\<not> df_empty df"
    and "select_key_col (columns (normalize_columns df)) = Some k"
    and "update_cols_of (normalize_columns df) = []"
    and "\<not> connect_raises S"
    and "lookup_rows S = Some rl"
  shows "\<exists>res tl. upload_excel_to_db B S db df = Inr res \<and>
           events res =
             [Connect, Execute_lookups, Show_message Sin_columnas_de_datos, Rollback, Close] @ tl \<and>
           set tl \<subseteq> {Rollback, Close, Show_message Error_al_subir} \<and>
           final_db res = db"
proof -
  from select_key_col_keep [OF assms(2)]
  have key: "k \<in> set (keep_columns (columns (normalize_columns df)))"
    by simp
  have "set (keep_columns (columns (normalize_columns df))) \<inter> fst ` set ALLOWED_MAP = {}"
    using assms(3) by (auto simp add: update_cols_of_def keep_columns_def filter_empty_conv)
  from clean_autocorrect_no_columns [OF key this, of B]
  obtain clean_df rep where cl: "clean_autocorrect B (normalize_columns df) k = Inr (clean_df, rep)"
    by (elim exE)
  have cols: "columns clean_df = keep_columns (columns (normalize_columns df))"
    using cl by (rule clean_autocorrect_columns)
  have "fst (batch_of B rl clean_df k) = sql_upd [] k"
    using batch_of_stmt [OF cols, of B rl k] assms(3) by (simp add: update_cols_of_def)
  then have sp: "set_parts (fst (batch_of B rl clean_df k)) = []"
    by (simp add: sql_upd_def)
  note tb = try_body_no_columns [OF assms(5) sp, of rep db]
  from upload_run [OF assms(1,2) cl assms(4) tb] show ?thesis
    by auto
qed

theorem no_editable_fields_after_lookup_witness:
  "\<not> df_empty key_only_df \<and>
   select_key_col (columns (normalize_columns key_only_df)) = Some ''id'' \<and>
   update_cols_of (normalize_columns key_only_df) = [] \<and>
   \<not> connect_raises ex_server \<and>
   lookup_rows ex_server = Some [(PInt 7, Some ''PIEZA'', None)] \<and>
   (\<exists>res tl. upload_excel_to_db decimal_builtins ex_server ex_db key_only_df = Inr res \<and>
      events res =
        [Connect, Execute_lookups, Show_message Sin_columnas_de_datos, Rollback, Close] @ tl \<and>
      final_db res = ex_db)"
proof -
  have 1: "\<not> df_empty key_only_df" by code_simp
  have 2: "select_key_col (columns (normalize_columns key_only_df)) = Some ''id''" by code_simp
  have 3: "update_cols_of (normalize_columns key_only_df) = []" by code_simp
  have 4: "\<not> connect_raises ex_server" by (simp add: ex_server_def)
  have 5: "lookup_rows ex_server = Some [(PInt 7, Some ''PIEZA'', None)]" by (simp add: ex_server_def)
  from no_editable_fields_after_lookup [OF 1 2 3 4 5, of decimal_builtins ex_db]
  have "\<exists>res tl. upload_excel_to_db decimal_builtins ex_server ex_db key_only_df = Inr res \<and>
      events res =
        [Connect, Execute_lookups, Show_message Sin_columnas_de_datos, Rollback, Close] @ tl \<and>
      final_db res = ex_db"
    by auto
  with 1 2 3 4 5 show ?thesis by (intro conjI)
qed

end
